theory Spec2Isabelle
  imports Main "HOL-Library.Sublist"
begin

section \<open>Python string operations used by the importer\<close>

text \<open>
  The importer (\<^verbatim>\<open>DB Migration using sql file/dump.py\<close>) works on Python \<^verbatim>\<open>str\<close> values.
  A \<^typ>\<open>string\<close> here is a list of code points below 256, one \<^typ>\<open>char\<close> per code point;
  every marker the tokenizer looks for is ASCII.

  \<^verbatim>\<open>str.strip()\<close> and \<^verbatim>\<open>str.rstrip()\<close> without argument remove the characters for which
  \<^verbatim>\<open>str.isspace()\<close> holds; below 256 these are the code points
  9 to 13, 28 to 32, 133 and 160.
\<close>

definition is_space :: "char \<Rightarrow> bool" where
  "is_space c \<longleftrightarrow>
     c \<in> set [CHR 0x09, CHR 0x0A, CHR 0x0B, CHR 0x0C, CHR 0x0D, CHR 0x1C, CHR 0x1D,
               CHR 0x1E, CHR 0x1F, CHR 0x20, CHR 0x85, CHR 0xA0]"

definition py_lstrip :: "string \<Rightarrow> string" where
  "py_lstrip s = dropWhile is_space s"

definition py_rstrip :: "string \<Rightarrow> string" where
  "py_rstrip s = rev (dropWhile is_space (rev s))"

definition py_strip :: "string \<Rightarrow> string" where
  "py_strip s = py_rstrip (py_lstrip s)"

text \<open>
  \<^verbatim>\<open>str.upper()\<close> is only used as \<^verbatim>\<open>check.upper().startswith("DELIMITER ")\<close>.
  Below 256 it maps a to z, and the Latin-1 letters 224 to 254 except 247, to the code
  point 32 below. The three remaining lower-case code points (181, 223 and 255) go to
  code points or sequences that hold no character of the token, so leaving them in place
  gives the same answer to the prefix test.
\<close>

definition upper_char :: "char \<Rightarrow> char" where
  "upper_char c =
     (let n = (of_char c :: nat) in
      if (97 \<le> n \<and> n \<le> 122) \<or> (224 \<le> n \<and> n \<le> 254 \<and> n \<noteq> 247)
      then char_of (n - 32) else c)"

definition py_upper :: "string \<Rightarrow> string" where
  "py_upper s = map upper_char s"

text \<open>\<^verbatim>\<open>s.find(pat)\<close>: the lowest index at which \<^verbatim>\<open>pat\<close> occurs, \<open>None\<close> for \<^verbatim>\<open>-1\<close>.\<close>

fun find_sub :: "string \<Rightarrow> string \<Rightarrow> nat option" where
  "find_sub pat [] = (if pat = [] then Some 0 else None)"
| "find_sub pat (c # cs) =
     (if prefix pat (c # cs) then Some 0 else map_option Suc (find_sub pat cs))"

text \<open>\<^verbatim>\<open>s.find(pat, start)\<close> with \<^verbatim>\<open>start >= 0\<close>.\<close>

definition find_from :: "string \<Rightarrow> string \<Rightarrow> nat \<Rightarrow> nat option" where
  "find_from pat s start =
     (if start \<le> length s then map_option (\<lambda>i. i + start) (find_sub pat (drop start s))
      else None)"

section \<open>The statement tokenizer \<^verbatim>\<open>_sql_statement_stream\<close>\<close>

text \<open>The generator's local variables; \<^verbatim>\<open>buf\<close> is the list of accumulated lines.\<close>

record tok_state =
  current_delim :: string
  buf :: "string list"
  in_block_comment :: bool

definition init_state :: tok_state where
  "init_state = \<lparr>current_delim = '';'', buf = [], in_block_comment = False\<rparr>"

definition delim_token :: string where
  "delim_token = ''DELIMITER ''"

lemma find_sub_bound: "find_sub pat s = Some i \<Longrightarrow> i + length pat \<le> length s"
proof (induction s arbitrary: i)
  case Nil
  then show ?case by (simp split: if_splits)
next
  case (Cons c cs)
  show ?case
  proof (cases "prefix pat (c # cs)")
    case True
    then have "length pat \<le> length (c # cs)" by (rule prefix_length_le)
    with True Cons.prems show ?thesis by simp
  next
    case False
    with Cons.prems obtain j where "find_sub pat cs = Some j" "i = Suc j" by auto
    with Cons.IH show ?thesis by fastforce
  qed
qed

lemma find_from_bound:
  assumes "find_from pat s start = Some e"
  shows "start \<le> e \<and> e + length pat \<le> length s"
proof -
  from assms have le: "start \<le> length s"
    by (simp add: find_from_def split: if_splits)
  with assms obtain i where i: "find_sub pat (drop start s) = Some i" and e: "e = i + start"
    by (auto simp: find_from_def)
  from find_sub_bound [OF i] le e show ?thesis by simp
qed

text \<open>
  Lines 66 to 72: inside a block comment the line is cut after the first \<^verbatim>\<open>*/\<close>;
  without one the line is skipped (\<open>None\<close>).
\<close>

definition comment_continuation :: "bool \<Rightarrow> string \<Rightarrow> string option" where
  "comment_continuation in_block line =
     (if in_block then
        (case find_sub ''*/'' line of
           Some end_idx \<Rightarrow> Some (drop (end_idx + 2) line)
         | None \<Rightarrow> None)
      else Some line)"

text \<open>
  Lines 75 to 84, the \<^verbatim>\<open>while "/*" in line\<close> loop. The result is the remaining line
  and the value of \<^verbatim>\<open>in_block_comment\<close> after the loop.
\<close>

function strip_inline :: "string \<Rightarrow> string \<times> bool" where
  "strip_inline line =
     (case find_sub ''/*'' line of
        None \<Rightarrow> (line, False)
      | Some start \<Rightarrow>
          (case find_from ''*/'' line (start + 2) of
             None \<Rightarrow> (take start line, True)
           | Some e \<Rightarrow> strip_inline (take start line @ drop (e + 2) line)))"
  by pat_completeness auto
termination
proof (relation "measure length")
  show "wf (measure length)" by simp
next
  fix line :: string and start e :: nat
  assume s: "find_sub ''/*'' line = Some start"
    and e: "find_from ''*/'' line (start + 2) = Some e"
  from find_sub_bound [OF s] have "start + 2 \<le> length line" by simp
  moreover from find_from_bound [OF e] have "start + 2 \<le> e" "e + 2 \<le> length line" by simp_all
  ultimately show "(take start line @ drop (e + 2) line, line) \<in> measure length"
    by simp
qed

declare strip_inline.simps [simp del]

text \<open>Lines 97 to 107: a \<^verbatim>\<open>DELIMITER\<close> directive flushes the buffer and sets the delimiter.\<close>

definition is_directive :: "string \<Rightarrow> bool" where
  "is_directive check \<longleftrightarrow> prefix ''DELIMITER '' (py_upper check)"

definition handle_delimiter :: "tok_state \<Rightarrow> string \<Rightarrow> tok_state \<times> string list" where
  "handle_delimiter st check =
     (let out = (if buf st \<noteq> []
                 then (let partial = py_strip (concat (buf st))
                       in if partial \<noteq> [] then [partial] else [])
                 else [])
      in (st\<lparr>buf := [], current_delim := py_strip (drop (length delim_token) check)\<rparr>, out))"

text \<open>Line 110: a line comment.\<close>

definition is_line_comment :: "string \<Rightarrow> bool" where
  "is_line_comment check \<longleftrightarrow> prefix ''--'' check \<or> prefix ''#'' check"

text \<open>Line 114.\<close>

definition accumulate :: "tok_state \<Rightarrow> string \<Rightarrow> tok_state" where
  "accumulate st line = st\<lparr>buf := buf st @ [line]\<rparr>"

text \<open>
  Lines 117 to 124. \<^verbatim>\<open>test[:-len(current_delim)]\<close> is reached only with a non-empty
  delimiter that \<^verbatim>\<open>test\<close> ends with, where it is the prefix of \<^verbatim>\<open>test\<close> without its last
  \<^verbatim>\<open>len(current_delim)\<close> characters.
\<close>

definition delimiter_match :: "tok_state \<Rightarrow> tok_state \<times> string list" where
  "delimiter_match st =
     (let joined = concat (buf st);
          test = py_rstrip joined
      in if current_delim st \<noteq> [] \<and> suffix (current_delim st) test
         then (let stmt = py_strip (take (length test - length (current_delim st)) test)
               in (st\<lparr>buf := []\<rparr>, if stmt \<noteq> [] then [stmt] else []))
         else (st, []))"

text \<open>
  One iteration of \<^verbatim>\<open>for raw_line in text_stream\<close> (lines 62 to 124): the state after
  the line and the statements it yields.
\<close>

definition process_line :: "tok_state \<Rightarrow> string \<Rightarrow> tok_state \<times> string list" where
  "process_line st raw_line =
     (case comment_continuation (in_block_comment st) raw_line of
        None \<Rightarrow> (st, [])
      | Some line0 \<Rightarrow>
          (case strip_inline line0 of
             (line, True) \<Rightarrow> (st\<lparr>in_block_comment := True\<rparr>, [])
           | (line, False) \<Rightarrow>
               (let st1 = st\<lparr>in_block_comment := False\<rparr>;
                    check = py_strip line
                in if check = [] then (st1, [])
                   else if is_directive check then handle_delimiter st1 check
                   else if is_line_comment check then (st1, [])
                   else delimiter_match (accumulate st1 line))))"

fun stream_loop :: "tok_state \<Rightarrow> string list \<Rightarrow> tok_state \<times> string list" where
  "stream_loop st [] = (st, [])"
| "stream_loop st (l # ls) =
     (case process_line st l of
        (st1, out1) \<Rightarrow> (case stream_loop st1 ls of (st2, out2) \<Rightarrow> (st2, out1 @ out2)))"

text \<open>Lines 127 to 129, after the loop.\<close>

definition flush_tail :: "tok_state \<Rightarrow> string list" where
  "flush_tail st = (let tail = py_strip (concat (buf st)) in if tail \<noteq> [] then [tail] else [])"

text \<open>The statements the generator yields on a stream that delivers the given lines.\<close>

definition sql_statement_stream :: "string list \<Rightarrow> string list" where
  "sql_statement_stream lines =
     (case stream_loop init_state lines of (st, out) \<Rightarrow> out @ flush_tail st)"

text \<open>
  Iterating an \<^verbatim>\<open>io.StringIO\<close> (the raw-text and plain-URL sources) yields the text cut
  after each line feed, the line feed kept.
\<close>

fun split_lines :: "string \<Rightarrow> string \<Rightarrow> string list" where
  "split_lines cur [] = (if cur = [] then [] else [cur])"
| "split_lines cur (c # cs) =
     (if c = CHR 0x0A then (cur @ [c]) # split_lines [] cs else split_lines (cur @ [c]) cs)"

definition iter_lines :: "string \<Rightarrow> string list" where
  "iter_lines text = split_lines [] text"

text \<open>
  Iterating a file opened with \<^verbatim>\<open>newline=""\<close> (the local-file and gzip sources) yields
  the text cut after each \<^verbatim>\<open>\n\<close>, \<^verbatim>\<open>\r\n\<close> or lone \<^verbatim>\<open>\r\<close>, the line ending kept as it is.
\<close>

fun split_universal :: "string \<Rightarrow> string \<Rightarrow> string list" where
  "split_universal cur [] = (if cur = [] then [] else [cur])"
| "split_universal cur (c # cs) =
     (if c = CHR 0x0A then (cur @ [c]) # split_universal [] cs
      else if c = CHR 0x0D then
        (case cs of
           [] \<Rightarrow> [cur @ [c]]
         | c2 # cs2 \<Rightarrow>
             if c2 = CHR 0x0A then (cur @ [c, c2]) # split_universal [] cs2
             else (cur @ [c]) # split_universal [] cs)
      else split_universal (cur @ [c]) cs)"

definition iter_lines_universal :: "string \<Rightarrow> string list" where
  "iter_lines_universal text = split_universal [] text"

section \<open>The replay driver \<^verbatim>\<open>migrate_sql_to_mysql\<close>\<close>

text \<open>
  The driver talks to the destination, the loader and the stream through calls that may
  raise. Each call is an \<open>action\<close>; its result is \<open>None\<close> when it returns and
  \<open>Some e\<close> when it raises \<open>e\<close>. The driver distinguishes \<^verbatim>\<open>mysql.Error\<close>
  (caught at line 190) from every other \<^verbatim>\<open>Exception\<close>.
\<close>

datatype error = MysqlError | OtherException

datatype action =
    Connect
  | Cursor
  | SetForeignKeyChecks bool
  | Commit
  | OpenSource
  | Execute string
  | CloseCursor
  | CloseConnection
  | CloseStream

type_synonym event = "action \<times> error option"

text \<open>
  The world outside the driver answers each call from the calls made so far, so the
  destination may be any deterministic system. \<open>SetForeignKeyChecks b\<close> is
  \<^verbatim>\<open>cur.execute("SET FOREIGN_KEY_CHECKS=b;")\<close>, \<open>Execute stmt\<close> is
  \<^verbatim>\<open>cur.execute(stmt)\<close> at line 187.
\<close>

type_synonym world = "event list \<Rightarrow> action \<Rightarrow> error option"

text \<open>
  What the driver prints about statements: the error message of line 192 (the error
  count, the statement number and the first 1000 characters of the statement) and the
  closing line 223. Banners and timestamps are left out, as is the progress bar.
\<close>

datatype console_line = ErrorReport nat nat string | Summary nat nat

record run_state =
  applied :: nat
  failed :: nat
  batch :: nat
  log :: "event list"
  console :: "console_line list"

definition perform :: "world \<Rightarrow> action \<Rightarrow> run_state \<Rightarrow> error option \<times> run_state" where
  "perform w a s = (w (log s) a, s\<lparr>log := log s @ [(a, w (log s) a)]\<rparr>)"

text \<open>Lines 200 to 202.\<close>

definition periodic_commit :: "world \<Rightarrow> int \<Rightarrow> run_state \<Rightarrow> error option \<times> run_state" where
  "periodic_commit w commit_every s =
     (if int (batch s) \<ge> commit_every
      then (case perform w Commit s of
              (None, s1) \<Rightarrow> (None, s1\<lparr>batch := 0\<rparr>)
            | (Some e, s1) \<Rightarrow> (Some e, s1))
      else (None, s))"

text \<open>One iteration of the loop at line 185 (lines 186 to 202).\<close>

definition replay_step ::
  "world \<Rightarrow> int \<Rightarrow> bool \<Rightarrow> string \<Rightarrow> run_state \<Rightarrow> error option \<times> run_state" where
  "replay_step w commit_every stop_on_error stmt s =
     (case perform w (Execute stmt) s of
        (None, s1) \<Rightarrow>
          periodic_commit w commit_every (s1\<lparr>applied := applied s1 + 1, batch := batch s1 + 1\<rparr>)
      | (Some MysqlError, s1) \<Rightarrow>
          (let f = failed s1 + 1;
               s2 = s1\<lparr>failed := f,
                       console := console s1 @ [ErrorReport f (applied s1 + f) (take 1000 stmt)]\<rparr>
           in if stop_on_error then (Some MysqlError, s2)
              else periodic_commit w commit_every s2)
      | (Some OtherException, s1) \<Rightarrow> (Some OtherException, s1))"

fun replay_loop ::
  "world \<Rightarrow> int \<Rightarrow> bool \<Rightarrow> string list \<Rightarrow> run_state \<Rightarrow> error option \<times> run_state" where
  "replay_loop w commit_every stop_on_error [] s = (None, s)"
| "replay_loop w commit_every stop_on_error (stmt # rest) s =
     (case replay_step w commit_every stop_on_error stmt s of
        (None, s1) \<Rightarrow> replay_loop w commit_every stop_on_error rest s1
      | (Some e, s1) \<Rightarrow> (Some e, s1))"

text \<open>
  The statement iterator as the loop sees it: the statements it yields and whether it
  then raises instead of ending (a read or decoding error of the stream).
\<close>

type_synonym stmt_iter = "string list \<times> bool"

text \<open>The body of the \<^verbatim>\<open>try\<close> (lines 185 to 206).\<close>

definition try_body ::
  "world \<Rightarrow> int \<Rightarrow> bool \<Rightarrow> stmt_iter \<Rightarrow> run_state \<Rightarrow> error option \<times> run_state" where
  "try_body w commit_every stop_on_error it s =
     (case replay_loop w commit_every stop_on_error (fst it) s of
        (Some e, s1) \<Rightarrow> (Some e, s1)
      | (None, s1) \<Rightarrow>
          if snd it then (Some OtherException, s1)
          else if batch s1 > 0 then perform w Commit s1
          else (None, s1))"

text \<open>
  The \<^verbatim>\<open>finally\<close> block (lines 209 to 219). An error of the two calls under
  \<^verbatim>\<open>except Exception: pass\<close> (\<open>reenable_checks\<close>, lines 212 to 216) is dropped; an
  error of a \<^verbatim>\<open>close\<close> leaves the block at once.
\<close>

definition reenable_checks :: "world \<Rightarrow> run_state \<Rightarrow> run_state" where
  "reenable_checks w s =
     (case perform w (SetForeignKeyChecks True) s of
        (None, s1) \<Rightarrow> snd (perform w Commit s1)
      | (Some e, s1) \<Rightarrow> s1)"

definition cleanup :: "world \<Rightarrow> run_state \<Rightarrow> error option \<times> run_state" where
  "cleanup w s =
     (case perform w CloseCursor (reenable_checks w s) of
        (Some e, s3) \<Rightarrow> (Some e, s3)
      | (None, s3) \<Rightarrow>
          (case perform w CloseConnection s3 of
             (Some e, s4) \<Rightarrow> (Some e, s4)
           | (None, s4) \<Rightarrow> perform w CloseStream s4))"

text \<open>Lines 156 to 176, before the \<^verbatim>\<open>try\<close>: an error of any call leaves the function.\<close>

definition start_state :: run_state where
  "start_state = \<lparr>applied = 0, failed = 0, batch = 0, log = [], console = []\<rparr>"

definition prologue :: "world \<Rightarrow> error option \<times> run_state" where
  "prologue w =
     (case perform w Connect start_state of
        (Some e, s1) \<Rightarrow> (Some e, s1)
      | (None, s1) \<Rightarrow>
     (case perform w Cursor s1 of
        (Some e, s2) \<Rightarrow> (Some e, s2)
      | (None, s2) \<Rightarrow>
     (case perform w (SetForeignKeyChecks False) s2 of
        (Some e, s3) \<Rightarrow> (Some e, s3)
      | (None, s3) \<Rightarrow>
     (case perform w Commit s3 of
        (Some e, s4) \<Rightarrow> (Some e, s4)
      | (None, s4) \<Rightarrow> perform w OpenSource s4))))"

text \<open>
  The stream the loader returns: the lines it delivers and whether reading it fails
  after them.
\<close>

record source =
  src_lines :: "string list"
  read_error :: bool

definition stmt_iter_of :: "source \<Rightarrow> stmt_iter" where
  "stmt_iter_of src =
     (if read_error src then (snd (stream_loop init_state (src_lines src)), True)
      else (sql_statement_stream (src_lines src), False))"

text \<open>
  The whole function: the error it raises, if any, and the final state. The summary of
  line 223 is printed only when nothing was raised.
\<close>

definition migrate_sql_to_mysql ::
  "world \<Rightarrow> source \<Rightarrow> int \<Rightarrow> bool \<Rightarrow> error option \<times> run_state" where
  "migrate_sql_to_mysql w src commit_every stop_on_error =
     (case prologue w of
        (Some e, s0) \<Rightarrow> (Some e, s0)
      | (None, s0) \<Rightarrow>
          (case try_body w commit_every stop_on_error (stmt_iter_of src) s0 of
             (r, s1) \<Rightarrow>
               (case cleanup w s1 of
                  (Some e, s2) \<Rightarrow> (Some e, s2)
                | (None, s2) \<Rightarrow>
                    (case r of
                       Some e \<Rightarrow> (Some e, s2)
                     | None \<Rightarrow>
                         (None, s2\<lparr>console := console s2 @ [Summary (applied s2) (failed s2)]\<rparr>)))))"

section \<open>Notions used to state the properties\<close>

text \<open>
  \<open>remaining_line raw line\<close>: lines 66 to 87 leave \<open>line\<close> of the raw line \<open>raw\<close>
  (in one of the two comment states) and go on to the checks of line 90.
\<close>

definition remaining_line :: "string \<Rightarrow> string \<Rightarrow> bool" where
  "remaining_line raw line \<longleftrightarrow>
     strip_inline raw = (line, False) \<or>
     (case comment_continuation True raw of
        Some line0 \<Rightarrow> strip_inline line0 = (line, False)
      | None \<Rightarrow> False)"

text \<open>
  Every line in the buffer is what lines 66 to 87 left of some line of the stream, and
  is not a directive; every statement is a contiguous piece of the concatenation of such
  lines.
\<close>

definition from_lines :: "string set \<Rightarrow> string \<Rightarrow> bool" where
  "from_lines R line \<longleftrightarrow>
     (\<exists>raw\<in>R. remaining_line raw line) \<and> \<not> is_directive (py_strip line)"

definition pieces_of :: "string set \<Rightarrow> string \<Rightarrow> bool" where
  "pieces_of R s \<longleftrightarrow> (\<exists>ls. sublist s (concat ls) \<and> (\<forall>l\<in>set ls. from_lines R l))"

text \<open>Every line kept in the buffer has text other than whitespace.\<close>

definition buf_inv :: "tok_state \<Rightarrow> bool" where
  "buf_inv st \<longleftrightarrow> (\<forall>l\<in>set (buf st). py_strip l \<noteq> [])"

text \<open>
  The text of a line that lies outside \<^verbatim>\<open>/* ... */\<close> spans, read from left to right;
  the flag says whether the line starts inside a span.
\<close>

fun outside_comments :: "bool \<Rightarrow> string \<Rightarrow> string" where
  "outside_comments inside [] = []"
| "outside_comments False [c] = [c]"
| "outside_comments True [c] = []"
| "outside_comments False (c1 # c2 # cs) =
     (if c1 = CHR ''/'' \<and> c2 = CHR ''*'' then outside_comments True cs
      else c1 # outside_comments False (c2 # cs))"
| "outside_comments True (c1 # c2 # cs) =
     (if c1 = CHR ''*'' \<and> c2 = CHR ''/'' then outside_comments False cs
      else outside_comments True (c2 # cs))"














text \<open>
  The lines of a text stream. \<open>T\<close> holds the characters that end a line of the stream
  (\<^verbatim>\<open>\n\<close> for an \<^verbatim>\<open>io.StringIO\<close>; \<^verbatim>\<open>\n\<close> and \<^verbatim>\<open>\r\<close> for a file read with universal
  newlines). A line that is not the last one of its stream ends with such a character and
  has none before its line ending (\<open>ends_line\<close>). \<open>line_inv\<close> is what this gives the
  tokenizer's state: every buffered line has text and ends with a line ending, and the
  delimiter holds no line-ending character.
\<close>

definition ends_line :: "char set \<Rightarrow> string \<Rightarrow> bool" where
  "ends_line T l \<longleftrightarrow>
     l \<noteq> [] \<and> last l \<in> T \<and> set (dropWhile (\<lambda>c. c \<in> T) (rev l)) \<inter> T = {}"


text \<open>The attempts of dump statements a log holds, in order, each with its result.\<close>

fun stmt_attempts :: "event list \<Rightarrow> (string \<times> error option) list" where
  "stmt_attempts [] = []"
| "stmt_attempts ((Execute stmt, r) # es) = (stmt, r) # stmt_attempts es"
| "stmt_attempts (ev # es) = stmt_attempts es"

definition loop_events :: "event list \<Rightarrow> event list" where
  "loop_events lg =
     takeWhile (\<lambda>ev. fst ev \<noteq> SetForeignKeyChecks True)
       (tl (dropWhile (\<lambda>ev. fst ev \<noteq> OpenSource) lg))"

definition only_statements_fail :: "world \<Rightarrow> bool" where
  "only_statements_fail w \<longleftrightarrow>
     (\<forall>lg. w lg Connect = None \<and> w lg Cursor = None \<and>
           w lg (SetForeignKeyChecks False) = None \<and> w lg Commit = None \<and>
           w lg OpenSource = None \<and> w lg CloseCursor = None \<and>
           w lg CloseConnection = None \<and> w lg CloseStream = None \<and>
           (\<forall>stmt. w lg (Execute stmt) \<noteq> Some OtherException))"

fun commit_schedule :: "nat \<Rightarrow> nat \<Rightarrow> (string \<times> error option) list \<Rightarrow> event list" where
  "commit_schedule M n [] = []"
| "commit_schedule M n ((stmt, None) # rest) =
     (Execute stmt, None) # (if Suc n mod M = 0 then [(Commit, None)] else [])
       @ commit_schedule M (Suc n) rest"
| "commit_schedule M n ((stmt, Some e) # rest) =
     (Execute stmt, Some e) # commit_schedule M n rest"

definition final_commit :: "nat \<Rightarrow> nat \<Rightarrow> event list" where
  "final_commit M n = (if n mod M \<noteq> 0 then [(Commit, None)] else [])"

definition successes :: "(string \<times> error option) list \<Rightarrow> nat" where
  "successes att = length (filter (\<lambda>a. snd a = None) att)"

definition failures :: "(string \<times> error option) list \<Rightarrow> nat" where
  "failures att = length (filter (\<lambda>a. snd a \<noteq> None) att)"

text \<open>The loop invariant that ties the batch counter to the number of successes.\<close>

definition batch_inv :: "nat \<Rightarrow> run_state \<Rightarrow> bool" where
  "batch_inv M s \<longleftrightarrow> batch s < M \<and> batch s = applied s mod M"

text \<open>The five calls before the \<^verbatim>\<open>try\<close>, all successful.\<close>

definition prologue_events :: "event list" where
  "prologue_events = [(Connect, None), (Cursor, None), (SetForeignKeyChecks False, None),
     (Commit, None), (OpenSource, None)]"

text \<open>
  The destination's transactions. The connection is opened with \<^verbatim>\<open>autocommit=False\<close>
  (line 162), so a statement that was executed is pending until a \<^verbatim>\<open>conn.commit()\<close>
  succeeds, which makes everything pending durable. \<open>ledger\<close> reads off a log the
  statements that are durable and those still pending.
\<close>

fun settle :: "string list \<times> string list \<Rightarrow> event \<Rightarrow> string list \<times> string list" where
  "settle (durable, pending) (Execute stmt, None) = (durable, pending @ [stmt])"
| "settle (durable, pending) (Commit, None) = (durable @ pending, [])"
| "settle (durable, pending) ev = (durable, pending)"

definition ledger :: "event list \<Rightarrow> string list \<times> string list" where
  "ledger lg = foldl settle ([], []) lg"

definition durable :: "event list \<Rightarrow> string list" where
  "durable lg = fst (ledger lg)"

definition uncommitted :: "event list \<Rightarrow> string list" where
  "uncommitted lg = snd (ledger lg)"

text \<open>What the loop keeps true of the pending statements.\<close>

definition pending_inv :: "nat \<Rightarrow> run_state \<Rightarrow> bool" where
  "pending_inv M s \<longleftrightarrow>
     length (uncommitted (log s)) = batch s \<and> length (durable (log s)) mod M = 0"

text \<open>A small run used to instantiate the theorems: the statement \<open>B\<close> fails.\<close>

definition demo_world :: world where
  "demo_world lg a = (if a = Execute ''B'' then Some MysqlError else None)"

definition demo_source :: source where
  "demo_source = \<lparr>src_lines = [''A;\<newline>'', ''B;\<newline>'', ''C;\<newline>''], read_error = False\<rparr>"


section \<open>Facts about the string operations\<close>

lemma pair_eqD: "x = (a, b) \<Longrightarrow> x = (c, d) \<Longrightarrow> a = c \<and> b = d"
  by simp

lemma sublist_rstrip: "sublist (py_rstrip s) s"
  unfolding py_rstrip_def by (simp add: sublist_rev_left)

lemma sublist_lstrip: "sublist (py_lstrip s) s"
  unfolding py_lstrip_def by simp

lemma sublist_strip: "sublist (py_strip s) s"
  unfolding py_strip_def
  using sublist_rstrip sublist_lstrip sublist_order.order.trans by blast

section \<open>Where the text of a statement comes from\<close>

lemma process_line_pieces:
  assumes raw: "raw \<in> R"
    and inv: "\<forall>l\<in>set (buf st). from_lines R l"
    and step: "process_line st raw = (st', out)"
  shows "(\<forall>l\<in>set (buf st'). from_lines R l) \<and> (\<forall>s\<in>set out. pieces_of R s)"
proof (cases "comment_continuation (in_block_comment st) raw")
  case None
  with step inv show ?thesis by (simp add: process_line_def)
next
  case (Some line0)
  obtain line b where si: "strip_inline line0 = (line, b)" by (cases "strip_inline line0")
  show ?thesis
  proof (cases b)
    case True
    with Some si step inv show ?thesis by (auto simp: process_line_def)
  next
    case False
    have rem: "remaining_line raw line"
      using Some si False
      by (cases "in_block_comment st")
        (auto simp: remaining_line_def comment_continuation_def split: option.splits)
    let ?st1 = "st\<lparr>in_block_comment := False\<rparr>"
    let ?check = "py_strip line"
    have flush: "pieces_of R (py_strip (concat (buf st)))"
      unfolding pieces_of_def using inv sublist_strip by blast
    consider (blank) "?check = []"
      | (dir) "?check \<noteq> []" "is_directive ?check"
      | (com) "?check \<noteq> []" "\<not> is_directive ?check" "is_line_comment ?check"
      | (acc) "?check \<noteq> []" "\<not> is_directive ?check" "\<not> is_line_comment ?check"
      by blast
    then show ?thesis
    proof cases
      case blank
      with Some si False step inv show ?thesis by (auto simp: process_line_def)
    next
      case dir
      with Some si False step have "buf st' = []" "set out \<subseteq> {py_strip (concat (buf st))}"
        by (auto simp: process_line_def handle_delimiter_def Let_def split: if_splits)
      with flush show ?thesis by auto
    next
      case com
      with Some si False step inv show ?thesis by (auto simp: process_line_def)
    next
      case acc
      have fl: "from_lines R line"
        unfolding from_lines_def using raw rem acc by blast
      let ?b = "buf st @ [line]"
      have invb: "\<forall>l\<in>set ?b. from_lines R l" using inv fl by simp
      have st': "(st', out) = delimiter_match (accumulate ?st1 line)"
        using Some si False step acc by (simp add: process_line_def)
      have "\<And>k. sublist (py_strip (take k (py_rstrip (concat ?b)))) (concat ?b)"
        by (meson sublist_strip sublist_take sublist_rstrip sublist_order.order.trans)
      then have "\<And>k. pieces_of R (py_strip (take k (py_rstrip (concat ?b))))"
        unfolding pieces_of_def using invb by blast
      with st' invb show ?thesis
        by (auto simp: delimiter_match_def accumulate_def Let_def split: if_splits)
    qed
  qed
qed

lemma stream_loop_pieces:
  assumes "set ls \<subseteq> R"
    and "\<forall>l\<in>set (buf st). from_lines R l"
    and "stream_loop st ls = (st', out)"
  shows "(\<forall>l\<in>set (buf st'). from_lines R l) \<and> (\<forall>s\<in>set out. pieces_of R s)"
  using assms
proof (induction ls arbitrary: st st' out)
  case Nil
  then show ?case by simp
next
  case (Cons l ls)
  obtain st1 out1 where p: "process_line st l = (st1, out1)" by (cases "process_line st l")
  obtain st2 out2 where q: "stream_loop st1 ls = (st2, out2)" by (cases "stream_loop st1 ls")
  from Cons.prems(1) have l: "l \<in> R" and ls: "set ls \<subseteq> R" by simp_all
  from process_line_pieces [OF l Cons.prems(2) p]
  have i1: "\<forall>l\<in>set (buf st1). from_lines R l" and o1: "\<forall>s\<in>set out1. pieces_of R s"
    by simp_all
  from Cons.IH [OF ls i1 q]
  have i2: "\<forall>l\<in>set (buf st2). from_lines R l" and o2: "\<forall>s\<in>set out2. pieces_of R s"
    by simp_all
  from Cons.prems(3) p q have "st' = st2" "out = out1 @ out2" by simp_all
  with i2 o1 o2 show ?case by auto
qed

lemma statement_pieces:
  assumes "s \<in> set (sql_statement_stream lines)"
  shows "pieces_of (set lines) s"
proof -
  obtain st out where r: "stream_loop init_state lines = (st, out)"
    by (cases "stream_loop init_state lines")
  have "\<forall>l\<in>set (buf init_state). from_lines (set lines) l" by (simp add: init_state_def)
  from stream_loop_pieces [OF subset_refl this r]
  have i: "\<forall>l\<in>set (buf st). from_lines (set lines) l"
    and o: "\<forall>s\<in>set out. pieces_of (set lines) s"
    by simp_all
  have "pieces_of (set lines) (py_strip (concat (buf st)))"
    unfolding pieces_of_def using i sublist_strip by blast
  with assms r o show ?thesis
    by (auto simp: sql_statement_stream_def flush_tail_def Let_def split: if_splits)
qed

section \<open>Facts about the tokenizer\<close>

lemma lstrip_Nil_iff: "py_lstrip s = [] \<longleftrightarrow> (\<forall>c\<in>set s. is_space c)"
  by (simp add: py_lstrip_def dropWhile_eq_Nil_conv)

lemma rstrip_Nil_iff: "py_rstrip s = [] \<longleftrightarrow> (\<forall>c\<in>set s. is_space c)"
  by (simp add: py_rstrip_def dropWhile_eq_Nil_conv)

lemma strip_Nil_iff: "py_strip s = [] \<longleftrightarrow> (\<forall>c\<in>set s. is_space c)"
proof
  assume "\<forall>c\<in>set s. is_space c"
  then have "py_lstrip s = []" by (simp add: lstrip_Nil_iff)
  then show "py_strip s = []" by (simp add: py_strip_def py_rstrip_def)
next
  assume a: "py_strip s = []"
  show "\<forall>c\<in>set s. is_space c"
  proof (rule ccontr)
    assume "\<not> (\<forall>c\<in>set s. is_space c)"
    then have ne: "dropWhile is_space s \<noteq> []" by (simp add: dropWhile_eq_Nil_conv)
    then have "\<not> is_space (hd (dropWhile is_space s))" by (rule hd_dropWhile)
    moreover from a have "\<forall>c\<in>set (dropWhile is_space s). is_space c"
      by (simp add: py_strip_def rstrip_Nil_iff py_lstrip_def)
    ultimately show False using ne by (meson hd_in_set)
  qed
qed

lemma strip_concat_Nil_iff: "py_strip (concat ls) = [] \<longleftrightarrow> (\<forall>l\<in>set ls. py_strip l = [])"
  by (auto simp: strip_Nil_iff)

lemma process_line_cases:
  obtains (skipped) "comment_continuation (in_block_comment st) raw = None"
      "process_line st raw = (st, [])"
    | (opened) line0 line where "comment_continuation (in_block_comment st) raw = Some line0"
      "strip_inline line0 = (line, True)"
      "process_line st raw = (st\<lparr>in_block_comment := True\<rparr>, [])"
    | (blank) line0 line where "comment_continuation (in_block_comment st) raw = Some line0"
      "strip_inline line0 = (line, False)" "py_strip line = []"
      "process_line st raw = (st\<lparr>in_block_comment := False\<rparr>, [])"
    | (directive) line0 line where "comment_continuation (in_block_comment st) raw = Some line0"
      "strip_inline line0 = (line, False)" "py_strip line \<noteq> []" "is_directive (py_strip line)"
      "process_line st raw = handle_delimiter (st\<lparr>in_block_comment := False\<rparr>) (py_strip line)"
    | (comment) line0 line where "comment_continuation (in_block_comment st) raw = Some line0"
      "strip_inline line0 = (line, False)" "py_strip line \<noteq> []" "\<not> is_directive (py_strip line)"
      "is_line_comment (py_strip line)"
      "process_line st raw = (st\<lparr>in_block_comment := False\<rparr>, [])"
    | (kept) line0 line where "comment_continuation (in_block_comment st) raw = Some line0"
      "strip_inline line0 = (line, False)" "py_strip line \<noteq> []" "\<not> is_directive (py_strip line)"
      "\<not> is_line_comment (py_strip line)"
      "process_line st raw = delimiter_match (accumulate (st\<lparr>in_block_comment := False\<rparr>) line)"
proof (cases "comment_continuation (in_block_comment st) raw")
  case None
  then show ?thesis using skipped by (simp add: process_line_def)
next
  case (Some line0)
  obtain line b where si: "strip_inline line0 = (line, b)" by (cases "strip_inline line0")
  show ?thesis
  proof (cases b)
    case True
    with Some si show ?thesis using opened by (simp add: process_line_def)
  next
    case False
    have pl: "process_line st raw =
        (let st1 = st\<lparr>in_block_comment := False\<rparr>;
             check = py_strip line
         in if check = [] then (st1, [])
            else if is_directive check then handle_delimiter st1 check
            else if is_line_comment check then (st1, [])
            else delimiter_match (accumulate st1 line))"
      using Some si False by (simp add: process_line_def)
    show ?thesis
    proof (cases "py_strip line = []")
      case True
      with pl Some si False show ?thesis using blank [of line0 line] by simp
    next
      case ne: False
      show ?thesis
      proof (cases "is_directive (py_strip line)")
        case True
        with ne pl Some si False show ?thesis using directive [of line0 line] by simp
      next
        case nd: False
        show ?thesis
        proof (cases "is_line_comment (py_strip line)")
          case True
          with ne nd pl Some si False show ?thesis using comment [of line0 line] by simp
        next
          case nc: False
          with ne nd pl Some si False show ?thesis using kept [of line0 line] by simp
        qed
      qed
    qed
  qed
qed

lemma handle_delimiter_flush:
  assumes "buf_inv st" and "buf st \<noteq> []"
  shows "handle_delimiter st check =
    (st\<lparr>buf := [], current_delim := py_strip (drop (length delim_token) check)\<rparr>,
     [py_strip (concat (buf st))])"
    and "py_strip (concat (buf st)) \<noteq> []"
proof -
  from assms obtain l where "l \<in> set (buf st)" "py_strip l \<noteq> []"
    unfolding buf_inv_def by (cases "buf st") auto
  then show ne: "py_strip (concat (buf st)) \<noteq> []" by (auto simp: strip_concat_Nil_iff)
  with assms(2) show "handle_delimiter st check =
    (st\<lparr>buf := [], current_delim := py_strip (drop (length delim_token) check)\<rparr>,
     [py_strip (concat (buf st))])"
    by (simp add: handle_delimiter_def)
qed

lemma process_line_buf_inv:
  assumes "buf_inv st" and "process_line st raw = (st', out)"
  shows "buf_inv st'"
proof (cases rule: process_line_cases [of st raw])
  case (kept line0 line)
  with assms show ?thesis
    by (auto simp: delimiter_match_def accumulate_def buf_inv_def Let_def split: if_splits)
next
  case (directive line0 line)
  with assms show ?thesis by (auto simp: handle_delimiter_def buf_inv_def Let_def)
qed (use assms in \<open>auto simp: buf_inv_def\<close>)

lemma stream_loop_buf_inv:
  assumes "buf_inv st" and "stream_loop st ls = (st', out)"
  shows "buf_inv st'"
  using assms
proof (induction ls arbitrary: st st' out)
  case Nil
  then show ?case by simp
next
  case (Cons l ls)
  obtain st1 out1 where p: "process_line st l = (st1, out1)" by (cases "process_line st l")
  obtain st2 out2 where q: "stream_loop st1 ls = (st2, out2)" by (cases "stream_loop st1 ls")
  from Cons.prems(2) p q have "st' = st2" by simp
  with Cons.IH [OF process_line_buf_inv [OF Cons.prems(1) p] q] show ?case by simp
qed

lemma stream_loop_append:
  "stream_loop st (xs @ ys) =
     (case stream_loop st xs of
        (st1, out1) \<Rightarrow> (case stream_loop st1 ys of (st2, out2) \<Rightarrow> (st2, out1 @ out2)))"
  by (induction xs arbitrary: st) (auto split: prod.splits)

lemma buf_inv_init: "buf_inv init_state"
  by (simp add: buf_inv_def init_state_def)

lemma strip_inline_plain: "find_sub ''/*'' line = None \<Longrightarrow> strip_inline line = (line, False)"
  by (subst strip_inline.simps) simp

lemma is_directive_nonempty: "is_directive check \<Longrightarrow> check \<noteq> []"
  by (auto simp: is_directive_def py_upper_def)

lemma directive_flush:
  assumes loop: "stream_loop init_state pre = (st, out0)"
    and cc: "comment_continuation (in_block_comment st) raw = Some line0"
    and si: "strip_inline line0 = (line, False)"
    and dir: "is_directive (py_strip line)"
    and ne: "buf st \<noteq> []"
  shows "process_line st raw =
      (st\<lparr>in_block_comment := False, buf := [],
          current_delim := py_strip (drop (length delim_token) (py_strip line))\<rparr>,
       [py_strip (concat (buf st))])
    \<and> py_strip (concat (buf st)) \<noteq> []"
proof -
  let ?st1 = "st\<lparr>in_block_comment := False\<rparr>"
  from stream_loop_buf_inv [OF buf_inv_init loop] have "buf_inv st" .
  then have inv: "buf_inv ?st1" by (simp add: buf_inv_def)
  have ne1: "buf ?st1 \<noteq> []" using ne by simp
  from handle_delimiter_flush(1) [OF inv ne1, of "py_strip line"]
    handle_delimiter_flush(2) [OF inv ne1]
  have h: "handle_delimiter ?st1 (py_strip line) =
      (st\<lparr>in_block_comment := False, buf := [],
          current_delim := py_strip (drop (length delim_token) (py_strip line))\<rparr>,
       [py_strip (concat (buf st))])"
    and n: "py_strip (concat (buf st)) \<noteq> []"
    by simp_all
  have "process_line st raw = handle_delimiter ?st1 (py_strip line)"
    using cc si dir is_directive_nonempty [OF dir] by (simp add: process_line_def)
  with h n show ?thesis by simp
qed

lemma tail_flush:
  assumes loop: "stream_loop init_state lines = (st, out)"
  shows "sql_statement_stream lines =
      out @ (if py_strip (concat (buf st)) \<noteq> [] then [py_strip (concat (buf st))] else [])
    \<and> (buf st \<noteq> [] \<longrightarrow> py_strip (concat (buf st)) \<noteq> [])"
proof -
  from stream_loop_buf_inv [OF buf_inv_init loop] have "buf_inv st" .
  then have "buf st \<noteq> [] \<longrightarrow> py_strip (concat (buf st)) \<noteq> []"
    unfolding strip_concat_Nil_iff buf_inv_def by (cases "buf st") auto
  with loop show ?thesis by (simp add: sql_statement_stream_def flush_tail_def)
qed

lemma unterminated_tail:
  assumes loop: "stream_loop init_state pre = (st, out0)"
    and empty: "buf st = []" and nb: "\<not> in_block_comment st"
    and plain: "find_sub ''/*'' D = None"
    and ne: "py_strip D \<noteq> []"
    and nd: "\<not> is_directive (py_strip D)"
    and nc: "\<not> is_line_comment (py_strip D)"
    and nt: "\<not> (current_delim st \<noteq> [] \<and> suffix (current_delim st) (py_rstrip D))"
  shows "sql_statement_stream (pre @ [D]) = out0 @ [py_strip D]"
proof -
  have st1: "st\<lparr>in_block_comment := False\<rparr> = st" using nb by simp
  have "process_line st D = delimiter_match (accumulate st D)"
    using nb strip_inline_plain [OF plain] ne nd nc
    by (simp add: process_line_def comment_continuation_def st1)
  also have "\<dots> = (st\<lparr>buf := [D]\<rparr>, [])"
    using nt empty by (auto simp: delimiter_match_def accumulate_def)
  finally have p: "process_line st D = (st\<lparr>buf := [D]\<rparr>, [])" .
  have "stream_loop init_state (pre @ [D]) = (st\<lparr>buf := [D]\<rparr>, out0)"
    using loop p by (simp add: stream_loop_append)
  then show ?thesis using ne by (simp add: sql_statement_stream_def flush_tail_def)
qed

subsection \<open>Blocks of whole lines\<close>














subsection \<open>Lines of a text stream\<close>



















lemma set_butlast_Cons: "set (butlast (x # xs)) \<subseteq> insert x (set (butlast xs))"
  by (cases xs) auto

lemma ends_line_snoc:
  assumes "set cur \<inter> T = {}" and "tail \<noteq> []" and "set tail \<subseteq> T"
  shows "ends_line T (cur @ tail)"
proof -
  from assms(2,3) have l: "last (cur @ tail) \<in> T" by auto
  have "\<And>c. c \<in> set (rev tail) \<Longrightarrow> c \<in> T" using assms(3) by auto
  then have "dropWhile (\<lambda>c. c \<in> T) (rev tail @ rev cur) = dropWhile (\<lambda>c. c \<in> T) (rev cur)"
    by (rule dropWhile_append2)
  moreover have "set (dropWhile (\<lambda>c. c \<in> T) (rev cur)) \<subseteq> set cur"
    using set_dropWhileD by fastforce
  ultimately have "set (dropWhile (\<lambda>c. c \<in> T) (rev (cur @ tail))) \<inter> T = {}"
    using assms(1) by auto
  with l assms(2) show ?thesis by (simp add: ends_line_def)
qed

lemma split_lines_ends:
  assumes "CHR 0x0A \<notin> set cur"
  shows "\<forall>l\<in>set (butlast (split_lines cur str)). ends_line {CHR 0x0A} l"
  using assms
proof (induction str arbitrary: cur)
  case Nil
  then show ?case by simp
next
  case (Cons c cs)
  show ?case
  proof (cases "c = CHR 0x0A")
    case True
    have e: "ends_line {CHR 0x0A} (cur @ [c])"
      using ends_line_snoc [of cur "{CHR 0x0A}" "[c]"] Cons.prems True by simp
    have "\<forall>l\<in>set (butlast (split_lines [] cs)). ends_line {CHR 0x0A} l"
      using Cons.IH [of "[]"] by simp
    with e True set_butlast_Cons [of "cur @ [c]" "split_lines [] cs"] show ?thesis by auto
  next
    case False
    with Cons.prems have "CHR 0x0A \<notin> set (cur @ [c])" by simp
    from Cons.IH [OF this] False show ?thesis by simp
  qed
qed

lemma iter_lines_ends: "\<forall>l\<in>set (butlast (iter_lines text)). ends_line {CHR 0x0A} l"
  unfolding iter_lines_def by (rule split_lines_ends) simp

lemma split_universal_ends:
  assumes "set cur \<inter> {CHR 0x0A, CHR 0x0D} = {}"
  shows "\<forall>l\<in>set (butlast (split_universal cur str)). ends_line {CHR 0x0A, CHR 0x0D} l"
  using assms
proof (induction cur str rule: split_universal.induct)
  case (1 cur)
  then show ?case by simp
next
  case (2 cur c cs)
  let ?T = "{CHR 0x0A, CHR 0x0D}"
  have nil: "set ([]::string) \<inter> ?T = {}" by simp
  show ?case
  proof (cases "c = CHR 0x0A")
    case True
    have e: "ends_line ?T (cur @ [c])"
      using ends_line_snoc [of cur ?T "[c]"] "2.prems" True by simp
    from "2.IH"(1) [OF True nil] e True
      set_butlast_Cons [of "cur @ [c]" "split_universal [] cs"]
    show ?thesis by auto
  next
    case lf: False
    show ?thesis
    proof (cases "c = CHR 0x0D")
      case False
      with lf "2.prems" have "set (cur @ [c]) \<inter> ?T = {}" by auto
      from "2.IH"(4) [OF lf False this] lf False show ?thesis by simp
    next
      case True
      have e1: "ends_line ?T (cur @ [c])"
        using ends_line_snoc [of cur ?T "[c]"] "2.prems" True by simp
      show ?thesis
      proof (cases cs)
        case Nil
        with lf True show ?thesis by simp
      next
        case (Cons c2 cs2)
        show ?thesis
        proof (cases "c2 = CHR 0x0A")
          case c2: True
          have e2: "ends_line ?T (cur @ [c, c2])"
            using ends_line_snoc [of cur ?T "[c, c2]"] "2.prems" True c2 by simp
          from "2.IH"(2) [OF lf True Cons c2 nil] e2 lf True Cons c2
            set_butlast_Cons [of "cur @ [c, c2]" "split_universal [] cs2"]
          show ?thesis by auto
        next
          case c2: False
          from "2.IH"(3) [OF lf True Cons c2 nil] e1 lf True Cons c2
            set_butlast_Cons [of "cur @ [c]" "split_universal [] cs"]
          show ?thesis by auto
        qed
      qed
    qed
  qed
qed

lemma iter_lines_universal_ends:
  "\<forall>l\<in>set (butlast (iter_lines_universal text)). ends_line {CHR 0x0A, CHR 0x0D} l"
  unfolding iter_lines_universal_def by (rule split_universal_ends) simp

section \<open>Facts about the replay driver\<close>

lemma stmt_attempts_append: "stmt_attempts (xs @ ys) = stmt_attempts xs @ stmt_attempts ys"
  by (induction xs rule: stmt_attempts.induct) simp_all

lemma stmt_attempts_schedule: "stmt_attempts (commit_schedule M n att) = att"
  by (induction M n att rule: commit_schedule.induct) (simp_all add: stmt_attempts_append)

lemma commit_schedule_append:
  "commit_schedule M n (xs @ ys) = commit_schedule M n xs @ commit_schedule M (n + successes xs) ys"
  by (induction M n xs rule: commit_schedule.induct) (simp_all add: successes_def)

lemma replay_step_osf:
  assumes osf: "only_statements_fail w" and M: "0 < M" and inv: "batch_inv M s"
    and step: "replay_step w (int M) soe stmt s = (r, s')"
  defines "oc \<equiv> w (log s) (Execute stmt)"
  shows "log s' = log s @ commit_schedule M (applied s) [(stmt, oc)]"
    and "batch_inv M s'"
    and "applied s' = applied s + successes [(stmt, oc)]"
    and "failed s' = failed s + failures [(stmt, oc)]"
    and "r = (if soe then oc else None)"
    and "oc \<noteq> Some OtherException"
proof -
  from osf have no: "oc \<noteq> Some OtherException" and cm: "\<And>lg. w lg Commit = None"
    unfolding only_statements_fail_def oc_def by blast+
  show "oc \<noteq> Some OtherException" by (rule no)
  consider (ok) "oc = None" | (bad) "oc = Some MysqlError"
    using no by (cases oc) (auto intro: error.exhaust)
  then have "log s' = log s @ commit_schedule M (applied s) [(stmt, oc)]
      \<and> batch_inv M s' \<and> applied s' = applied s + successes [(stmt, oc)]
      \<and> failed s' = failed s + failures [(stmt, oc)] \<and> r = (if soe then oc else None)"
  proof cases
    case ok
    show ?thesis
    proof (cases "Suc (batch s) = M")
      case True
      then have "Suc (applied s) mod M = 0"
        using inv M unfolding batch_inv_def by (metis mod_Suc)
      with ok True step M inv cm show ?thesis
        by (auto simp: replay_step_def perform_def periodic_commit_def Let_def oc_def
            batch_inv_def successes_def failures_def)
    next
      case False
      then have lt: "Suc (batch s) < M" using inv unfolding batch_inv_def by simp
      then have "Suc (applied s) mod M = Suc (batch s)"
        using inv unfolding batch_inv_def by (metis mod_Suc less_not_refl)
      with ok lt step M inv cm show ?thesis
        by (auto simp: replay_step_def perform_def periodic_commit_def Let_def oc_def
            batch_inv_def successes_def failures_def)
    qed
  next
    case bad
    with step M inv cm show ?thesis
      by (auto simp: replay_step_def perform_def periodic_commit_def Let_def oc_def
          batch_inv_def successes_def failures_def)
  qed
  then show "log s' = log s @ commit_schedule M (applied s) [(stmt, oc)]"
    and "batch_inv M s'"
    and "applied s' = applied s + successes [(stmt, oc)]"
    and "failed s' = failed s + failures [(stmt, oc)]"
    and "r = (if soe then oc else None)" by simp_all
qed


lemma replay_loop_osf:
  assumes osf: "only_statements_fail w" and M: "0 < M"
    and inv: "batch_inv M s"
    and run: "replay_loop w (int M) soe stmts s = (r, s')"
  shows "\<exists>att. log s' = log s @ commit_schedule M (applied s) att
           \<and> map fst att = take (length att) stmts
           \<and> batch_inv M s'
           \<and> applied s' = applied s + successes att
           \<and> failed s' = failed s + failures att
           \<and> (if soe \<and> failures att \<noteq> 0 then r \<noteq> None
               else r = None \<and> length att = length stmts)"
  using inv run
proof (induction stmts arbitrary: s)
  case Nil
  then have "s' = s" "r = None" by simp_all
  with Nil.prems(1) show ?case
    by (intro exI [of _ "[]"]) (simp add: successes_def failures_def)
next
  case (Cons stmt rest)
  obtain r1 s1 where st: "replay_step w (int M) soe stmt s = (r1, s1)"
    by (cases "replay_step w (int M) soe stmt s")
  define oc where "oc = w (log s) (Execute stmt)"
  note facts = replay_step_osf [OF osf M Cons.prems(1) st, folded oc_def]
  show ?case
  proof (cases r1)
    case None
    with st Cons.prems(2) have run': "replay_loop w (int M) soe rest s1 = (r, s')" by simp
    from Cons.IH [OF facts(2) run'] obtain att where
      a: "log s' = log s1 @ commit_schedule M (applied s1) att"
        "map fst att = take (length att) rest"
        "batch_inv M s'"
        "applied s' = applied s1 + successes att"
        "failed s' = failed s1 + failures att"
        "if soe \<and> failures att \<noteq> 0 then r \<noteq> None else r = None \<and> length att = length rest"
      by blast
    from None facts(5) have soe_ok: "soe \<longrightarrow> oc = None" by (simp split: if_splits)
    let ?att = "(stmt, oc) # att"
    have "commit_schedule M (applied s) ?att =
        commit_schedule M (applied s) [(stmt, oc)] @ commit_schedule M (applied s1) att"
      using commit_schedule_append [of M "applied s" "[(stmt, oc)]" att] facts(3) by simp
    with a(1) facts(1) have l: "log s' = log s @ commit_schedule M (applied s) ?att" by simp
    have f: "failures ?att = failures [(stmt, oc)] + failures att"
      and su: "successes ?att = successes [(stmt, oc)] + successes att"
      by (simp_all add: failures_def successes_def)
    have c: "if soe \<and> failures ?att \<noteq> 0 then r \<noteq> None else r = None \<and> length ?att = length (stmt # rest)"
      using a(6) soe_ok by (auto simp: failures_def)
    from l a(2,3,4,5) facts(3,4) f su c show ?thesis
      by (intro exI [of _ ?att]) simp
  next
    case (Some e)
    with st Cons.prems(2) have eq: "r = Some e" "s' = s1" by simp_all
    from Some facts(5) have soe: soe and oc: "oc = Some e" by (simp_all split: if_splits)
    from eq facts soe oc show ?thesis
      by (intro exI [of _ "[(stmt, oc)]"]) (simp add: failures_def)
  qed
qed


lemma not_other: "e \<noteq> OtherException \<Longrightarrow> e = MysqlError"
  by (cases e) simp_all

lemma outcome_cases:
  fixes oc :: "error option"
  obtains (ok) "oc = None" | (bad) "oc = Some MysqlError" | (other) "oc = Some OtherException"
proof (cases oc)
  case None
  then show ?thesis using that by simp
next
  case (Some e)
  then show ?thesis using that by (cases e) simp_all
qed

lemma replay_step_None:
  "w (log s) (Execute stmt) = None \<Longrightarrow>
   replay_step w m soe stmt s =
     periodic_commit w m
       (s\<lparr>log := log s @ [(Execute stmt, None)], applied := applied s + 1, batch := batch s + 1\<rparr>)"
  by (simp add: replay_step_def perform_def)

lemma replay_step_Mysql:
  "w (log s) (Execute stmt) = Some MysqlError \<Longrightarrow>
   replay_step w m soe stmt s =
     (let s2 = s\<lparr>log := log s @ [(Execute stmt, Some MysqlError)], failed := failed s + 1,
                  console := console s @
                    [ErrorReport (failed s + 1) (applied s + (failed s + 1)) (take 1000 stmt)]\<rparr>
      in if soe then (Some MysqlError, s2) else periodic_commit w m s2)"
  by (simp add: replay_step_def perform_def Let_def)

lemma replay_step_Other:
  "w (log s) (Execute stmt) = Some OtherException \<Longrightarrow>
   replay_step w m soe stmt s =
     (Some OtherException, s\<lparr>log := log s @ [(Execute stmt, Some OtherException)]\<rparr>)"
  by (simp add: replay_step_def perform_def)

lemma periodic_commit_frame:
  assumes "periodic_commit w m s = (r, s')"
  shows "stmt_attempts (log s') = stmt_attempts (log s) \<and> applied s' = applied s
     \<and> failed s' = failed s \<and> console s' = console s"
  using assms
  by (auto simp: periodic_commit_def perform_def stmt_attempts_append
      split: if_splits option.splits)

lemma replay_step_attempt:
  assumes step: "replay_step w m soe stmt s = (r, s')"
    and oc: "oc = w (log s) (Execute stmt)"
  shows "stmt_attempts (log s') = stmt_attempts (log s) @ [(stmt, oc)]"
    and "applied s' = applied s + (if oc = None then 1 else 0)"
    and "failed s' = failed s + (if oc = Some MysqlError then 1 else 0)"
    and "console s' = console s @
          (if oc = Some MysqlError
           then [ErrorReport (failed s + 1) (applied s + failed s + 1) (take 1000 stmt)] else [])"
    and "oc = Some OtherException \<Longrightarrow> r = Some OtherException"
    and "soe \<Longrightarrow> oc = Some MysqlError \<Longrightarrow> r = Some MysqlError"
    and "soe \<Longrightarrow> r = None \<Longrightarrow> oc = None"
proof -
  have "stmt_attempts (log s') = stmt_attempts (log s) @ [(stmt, oc)]
    \<and> applied s' = applied s + (if oc = None then 1 else 0)
    \<and> failed s' = failed s + (if oc = Some MysqlError then 1 else 0)
    \<and> console s' = console s @
          (if oc = Some MysqlError
           then [ErrorReport (failed s + 1) (applied s + failed s + 1) (take 1000 stmt)] else [])
    \<and> (oc = Some OtherException \<longrightarrow> r = Some OtherException)
    \<and> (soe \<longrightarrow> oc = Some MysqlError \<longrightarrow> r = Some MysqlError)
    \<and> (soe \<longrightarrow> r = None \<longrightarrow> oc = None)"
  proof (cases oc rule: outcome_cases)
    case ok
    with oc have w: "w (log s) (Execute stmt) = None" by simp
    from step have
      "periodic_commit w m
        (s\<lparr>log := log s @ [(Execute stmt, None)], applied := applied s + 1, batch := batch s + 1\<rparr>)
       = (r, s')"
      unfolding replay_step_None [where w=w and s=s and stmt=stmt and m=m and soe=soe, OF w] .
    from periodic_commit_frame [OF this] ok show ?thesis
      by (simp add: stmt_attempts_append)
  next
    case bad
    with oc have w: "w (log s) (Execute stmt) = Some MysqlError" by simp
    let ?s2 = "s\<lparr>log := log s @ [(Execute stmt, Some MysqlError)], failed := failed s + 1,
                  console := console s @
                    [ErrorReport (failed s + 1) (applied s + (failed s + 1)) (take 1000 stmt)]\<rparr>"
    show ?thesis
    proof (cases soe)
      case True
      have "replay_step w m soe stmt s = (Some MysqlError, ?s2)"
        using True by (simp add: replay_step_Mysql [where w=w and s=s and stmt=stmt, OF w] Let_def)
      from step [unfolded this] have "(r, s') = (Some MysqlError, ?s2)" by (rule sym)
      then have "r = Some MysqlError" "s' = ?s2" by (simp_all only: prod.inject)
      with bad show ?thesis by (simp add: stmt_attempts_append)
    next
      case False
      have "replay_step w m soe stmt s = periodic_commit w m ?s2"
        using False by (simp add: replay_step_Mysql [where w=w and s=s and stmt=stmt, OF w] Let_def)
      from step [unfolded this] have "periodic_commit w m ?s2 = (r, s')" .
      from periodic_commit_frame [OF this] bad False show ?thesis
        by (simp add: stmt_attempts_append)
    qed
  next
    case other
    with oc have w: "w (log s) (Execute stmt) = Some OtherException" by simp
    from step [unfolded replay_step_Other [where w=w and s=s and stmt=stmt and m=m and soe=soe, OF w]]
    have "(r, s') = (Some OtherException, s\<lparr>log := log s @ [(Execute stmt, Some OtherException)]\<rparr>)"
      by (rule sym)
    then have "r = Some OtherException" "s' = s\<lparr>log := log s @ [(Execute stmt, Some OtherException)]\<rparr>"
      by (simp_all only: prod.inject)
    with other show ?thesis by (simp add: stmt_attempts_append)
  qed
  then show "stmt_attempts (log s') = stmt_attempts (log s) @ [(stmt, oc)]"
    and "applied s' = applied s + (if oc = None then 1 else 0)"
    and "failed s' = failed s + (if oc = Some MysqlError then 1 else 0)"
    and "console s' = console s @
          (if oc = Some MysqlError
           then [ErrorReport (failed s + 1) (applied s + failed s + 1) (take 1000 stmt)] else [])"
    and "oc = Some OtherException \<Longrightarrow> r = Some OtherException"
    and "soe \<Longrightarrow> oc = Some MysqlError \<Longrightarrow> r = Some MysqlError"
    and "soe \<Longrightarrow> r = None \<Longrightarrow> oc = None"
    by blast+
qed

lemma replay_step_continue:
  assumes osf: "only_statements_fail w" and step: "replay_step w m False stmt s = (r, s')"
  shows "r = None" and "w (log s) (Execute stmt) \<noteq> Some OtherException"
proof -
  from osf have no: "w (log s) (Execute stmt) \<noteq> Some OtherException"
    and cm: "\<And>lg. w lg Commit = None"
    unfolding only_statements_fail_def by blast+
  show "w (log s) (Execute stmt) \<noteq> Some OtherException" by (rule no)
  show "r = None"
  proof (cases "w (log s) (Execute stmt)")
    case None
    with step cm show ?thesis
      by (auto simp: replay_step_def perform_def periodic_commit_def split: if_splits)
  next
    case (Some e)
    with no have "e = MysqlError" by (simp add: not_other)
    with Some step cm show ?thesis
      by (auto simp: replay_step_def perform_def periodic_commit_def Let_def split: if_splits)
  qed
qed

text \<open>Without \<^verbatim>\<open>stop_on_error\<close>, in a world where only statements fail.\<close>

lemma replay_loop_continue:
  assumes osf: "only_statements_fail w"
    and run: "replay_loop w m False stmts s = (r, s')"
  shows "\<exists>att. stmt_attempts (log s') = stmt_attempts (log s) @ att
           \<and> map fst att = stmts
           \<and> applied s' = applied s + successes att
           \<and> failed s' = failed s + failures att
           \<and> r = None"
  using run
proof (induction stmts arbitrary: s)
  case Nil
  then show ?case by (intro exI [of _ "[]"]) (simp add: successes_def failures_def)
next
  case (Cons stmt rest)
  obtain r1 s1 where st: "replay_step w m False stmt s = (r1, s1)"
    by (cases "replay_step w m False stmt s")
  define oc where "oc = w (log s) (Execute stmt)"
  note cont = replay_step_continue [OF osf st, folded oc_def]
  note facts = replay_step_attempt [OF st oc_def]
  from cont(1) st Cons.prems have run': "replay_loop w m False rest s1 = (r, s')" by simp
  from Cons.IH [OF run'] obtain att where
    a: "stmt_attempts (log s') = stmt_attempts (log s1) @ att" "map fst att = rest"
      "applied s' = applied s1 + successes att" "failed s' = failed s1 + failures att" "r = None"
    by blast
  have fm: "(oc = Some MysqlError) = (oc \<noteq> None)"
    using cont(2) by (cases oc rule: outcome_cases) simp_all
  from a facts(1,2,3) fm show ?case
    by (intro exI [of _ "(stmt, oc) # att"]) (simp add: successes_def failures_def)
qed

text \<open>With \<^verbatim>\<open>stop_on_error\<close>, in any world.\<close>

lemma replay_loop_stop:
  assumes run: "replay_loop w m True stmts s = (r, s')"
  shows "\<exists>att. stmt_attempts (log s') = stmt_attempts (log s) @ att
           \<and> map fst att = take (length att) stmts
           \<and> (\<forall>a\<in>set (butlast att). snd a = None)
           \<and> applied s' + failed s' = applied s + failed s + length (filter (\<lambda>a. snd a \<noteq> Some OtherException) att)
           \<and> (att \<noteq> [] \<and> snd (last att) = Some MysqlError \<longrightarrow>
                r = Some MysqlError \<and> failed s' = failed s + 1 \<and>
                console s' = console s @
                  [ErrorReport (failed s + 1) (applied s + failed s + length att)
                     (take 1000 (fst (last att)))])"
  using run
proof (induction stmts arbitrary: s)
  case Nil
  then show ?case by (intro exI [of _ "[]"]) simp
next
  case (Cons stmt rest)
  obtain r1 s1 where st: "replay_step w m True stmt s = (r1, s1)"
    by (cases "replay_step w m True stmt s")
  define oc where "oc = w (log s) (Execute stmt)"
  note facts = replay_step_attempt [OF st oc_def]
  show ?case
  proof (cases r1)
    case None
    with facts(7) have oc: "oc = None" by simp
    from None st Cons.prems have run': "replay_loop w m True rest s1 = (r, s')" by simp
    from Cons.IH [OF run'] obtain att where
      a: "stmt_attempts (log s') = stmt_attempts (log s1) @ att"
        "map fst att = take (length att) rest"
        "\<forall>a\<in>set (butlast att). snd a = None"
        "applied s' + failed s' = applied s1 + failed s1 + length (filter (\<lambda>a. snd a \<noteq> Some OtherException) att)"
        "att \<noteq> [] \<and> snd (last att) = Some MysqlError \<longrightarrow>
                r = Some MysqlError \<and> failed s' = failed s1 + 1 \<and>
                console s' = console s1 @
                  [ErrorReport (failed s1 + 1) (applied s1 + failed s1 + length att)
                     (take 1000 (fst (last att)))]"
      by blast
    from a facts(1,2,3,4) oc show ?thesis
      by (intro exI [of _ "(stmt, oc) # att"]) auto
  next
    case (Some e)
    with st Cons.prems have eq: "r = Some e" "s' = s1" by simp_all
    from eq Some facts(1,2,3,4,6) show ?thesis
      by (intro exI [of _ "[(stmt, oc)]"]) (cases oc rule: outcome_cases; simp)
  qed
qed

lemma prologue_ok:
  assumes "prologue w = (None, s0)"
  shows "s0 = start_state\<lparr>log := prologue_events\<rparr>"
  using assms
  by (auto simp: prologue_def perform_def start_state_def prologue_events_def
      split: option.splits)

lemma prologue_failed:
  assumes "prologue w = (Some e, s0)"
  shows "stmt_attempts (log s0) = [] \<and> console s0 = [] \<and> (SetForeignKeyChecks True) \<notin> fst ` set (log s0)
     \<and> CloseConnection \<notin> fst ` set (log s0)"
  using assms
  by (auto simp: prologue_def perform_def start_state_def split: option.splits)

lemma prologue_osf:
  assumes "only_statements_fail w"
  shows "prologue w = (None, start_state\<lparr>log := prologue_events\<rparr>)"
  using assms
  by (simp add: only_statements_fail_def prologue_def perform_def start_state_def prologue_events_def)

lemma cleanup_frame:
  assumes "cleanup w s = (c, s')"
  shows "stmt_attempts (log s') = stmt_attempts (log s) \<and> applied s' = applied s
     \<and> failed s' = failed s \<and> console s' = console s
     \<and> (\<exists>x rest. log s' = log s @ (SetForeignKeyChecks True, x) # rest)"
  using assms
  by (auto simp: cleanup_def reenable_checks_def perform_def stmt_attempts_append
      split: option.splits)

lemma cleanup_osf:
  assumes "only_statements_fail w" and "cleanup w s = (c, s')"
  shows "c = None"
  using assms
  by (auto simp: only_statements_fail_def cleanup_def reenable_checks_def perform_def
      split: option.splits)


lemma successes_failures: "successes att + failures att = length att"
  unfolding successes_def failures_def by (induction att) auto

lemma try_body_continue:
  assumes osf: "only_statements_fail w"
    and run: "try_body w m False (stmts, False) s = (r, s')"
  shows "\<exists>att. stmt_attempts (log s') = stmt_attempts (log s) @ att
           \<and> map fst att = stmts
           \<and> applied s' = applied s + successes att
           \<and> failed s' = failed s + failures att
           \<and> r = None"
proof -
  obtain r1 s1 where lp: "replay_loop w m False stmts s = (r1, s1)"
    by (cases "replay_loop w m False stmts s")
  from replay_loop_continue [OF osf lp] obtain att where
    a: "stmt_attempts (log s1) = stmt_attempts (log s) @ att" "map fst att = stmts"
      "applied s1 = applied s + successes att" "failed s1 = failed s + failures att" "r1 = None"
    by blast
  from osf have cm: "\<And>lg. w lg Commit = None" unfolding only_statements_fail_def by blast
  from run lp a(5) cm have
    "r = None \<and> stmt_attempts (log s') = stmt_attempts (log s1) \<and> applied s' = applied s1
      \<and> failed s' = failed s1"
    by (auto simp: try_body_def perform_def stmt_attempts_append split: if_splits)
  with a show ?thesis by (intro exI [of _ att]) simp
qed

lemma try_body_stop:
  assumes run: "try_body w m True it s = (r, s')"
  shows "\<exists>att. stmt_attempts (log s') = stmt_attempts (log s) @ att
           \<and> map fst att = take (length att) (fst it)
           \<and> (\<forall>a\<in>set (butlast att). snd a = None)
           \<and> applied s' + failed s' = applied s + failed s + length (filter (\<lambda>a. snd a \<noteq> Some OtherException) att)
           \<and> (att \<noteq> [] \<and> snd (last att) = Some MysqlError \<longrightarrow>
                r = Some MysqlError \<and> failed s' = failed s + 1 \<and>
                console s' = console s @
                  [ErrorReport (failed s + 1) (applied s + failed s + length att)
                     (take 1000 (fst (last att)))])"
proof -
  obtain rl sl where lp: "replay_loop w m True (fst it) s = (rl, sl)"
    by (cases "replay_loop w m True (fst it) s")
  from replay_loop_stop [OF lp] obtain att where
    a: "stmt_attempts (log sl) = stmt_attempts (log s) @ att"
      "map fst att = take (length att) (fst it)"
      "\<forall>a\<in>set (butlast att). snd a = None"
      "applied sl + failed sl = applied s + failed s + length (filter (\<lambda>a. snd a \<noteq> Some OtherException) att)"
      "att \<noteq> [] \<and> snd (last att) = Some MysqlError \<longrightarrow>
                rl = Some MysqlError \<and> failed sl = failed s + 1 \<and>
                console sl = console s @
                  [ErrorReport (failed s + 1) (applied s + failed s + length att)
                     (take 1000 (fst (last att)))]"
    by blast
  from run lp have
    f: "stmt_attempts (log s') = stmt_attempts (log sl) \<and> applied s' = applied sl
      \<and> failed s' = failed sl \<and> console s' = console sl \<and> (rl \<noteq> None \<longrightarrow> r = rl)"
    by (cases rl) (auto simp: try_body_def perform_def stmt_attempts_append split: if_splits)
  with a show ?thesis by (intro exI [of _ att]) auto
qed

lemma migrate_phases:
  assumes "prologue w = (None, s0)"
    and "try_body w m soe (stmt_iter_of src) s0 = (r1, s1)"
    and "cleanup w s1 = (c, s2)"
    and "migrate_sql_to_mysql w src m soe = (r, st)"
  shows "(c \<noteq> None \<and> r = c \<and> st = s2)
    \<or> (c = None \<and> r1 \<noteq> None \<and> r = r1 \<and> st = s2)
    \<or> (c = None \<and> r1 = None \<and> r = None
        \<and> st = s2\<lparr>console := console s2 @ [Summary (applied s2) (failed s2)]\<rparr>)"
proof (cases c)
  case (Some e)
  with assms(1,2,3) have "migrate_sql_to_mysql w src m soe = (Some e, s2)"
    by (simp add: migrate_sql_to_mysql_def)
  from pair_eqD [OF assms(4) this] Some show ?thesis by simp
next
  case None
  show ?thesis
  proof (cases r1)
    case (Some e)
    with None assms(1,2,3) have "migrate_sql_to_mysql w src m soe = (Some e, s2)"
      by (simp add: migrate_sql_to_mysql_def)
    from pair_eqD [OF assms(4) this] Some None show ?thesis by simp
  next
    case N: None
    with None assms(1,2,3) have "migrate_sql_to_mysql w src m soe =
        (None, s2\<lparr>console := console s2 @ [Summary (applied s2) (failed s2)]\<rparr>)"
      by (simp add: migrate_sql_to_mysql_def)
    from pair_eqD [OF assms(4) this] N None show ?thesis by simp
  qed
qed

lemma migrate_prologue_failed:
  assumes "prologue w = (Some e, s0)" and "migrate_sql_to_mysql w src m soe = (r, st)"
  shows "r = Some e \<and> st = s0"
proof -
  from assms(1) have "migrate_sql_to_mysql w src m soe = (Some e, s0)"
    by (simp add: migrate_sql_to_mysql_def)
  from pair_eqD [OF assms(2) this] show ?thesis .
qed

lemma commit_schedule_no_fk:
  "ev \<in> set (commit_schedule M n att) \<Longrightarrow> fst ev \<noteq> SetForeignKeyChecks True"
  by (induction M n att rule: commit_schedule.induct) (auto split: if_splits)

lemma final_commit_no_fk: "ev \<in> set (final_commit M n) \<Longrightarrow> fst ev \<noteq> SetForeignKeyChecks True"
  by (auto simp: final_commit_def split: if_splits)

lemma stmt_attempts_final: "stmt_attempts (final_commit M n) = []"
  by (simp add: final_commit_def)

lemma loop_events_phases:
  assumes "\<forall>ev\<in>set body. fst ev \<noteq> SetForeignKeyChecks True"
  shows "loop_events (prologue_events @ body @ (SetForeignKeyChecks True, x) # rest) = body"
  using assms
  by (simp add: loop_events_def prologue_events_def)

lemma try_body_osf:
  assumes osf: "only_statements_fail w" and M: "0 < M"
    and inv: "batch_inv M s" and z: "applied s = 0"
    and run: "try_body w (int M) soe (stmts, False) s = (r, s')"
  shows "\<exists>att. log s' = log s @ commit_schedule M 0 att
            @ (if soe \<and> failures att \<noteq> 0 then [] else final_commit M (successes att))
          \<and> map fst att = take (length att) stmts"
proof -
  obtain rl sl where lp: "replay_loop w (int M) soe stmts s = (rl, sl)"
    by (cases "replay_loop w (int M) soe stmts s")
  from replay_loop_osf [OF osf M inv lp] z obtain att where
    a: "log sl = log s @ commit_schedule M 0 att"
      "map fst att = take (length att) stmts"
      "batch_inv M sl"
      "applied sl = successes att"
      "if soe \<and> failures att \<noteq> 0 then rl \<noteq> None else rl = None \<and> length att = length stmts"
    by auto
  from osf have cm: "\<And>lg. w lg Commit = None" unfolding only_statements_fail_def by blast
  show ?thesis
  proof (cases "soe \<and> failures att \<noteq> 0")
    case True
    with a(5) obtain e where "rl = Some e" by auto
    with run lp have "s' = sl" by (simp add: try_body_def)
    with a True show ?thesis by (intro exI [of _ att]) simp
  next
    case False
    with a(5) have rl: "rl = None" by simp
    from a(3,4) have b: "batch sl = successes att mod M" by (simp add: batch_inv_def)
    from run lp rl cm have "log s' = log sl @ final_commit M (successes att)"
      by (auto simp: try_body_def perform_def final_commit_def b split: if_splits)
    with a False show ?thesis by (intro exI [of _ att]) auto
  qed
qed

subsection \<open>What is durable\<close>

lemma ledger_snoc: "ledger (lg @ [ev]) = settle (ledger lg) ev"
  by (simp add: ledger_def)

lemma ledger_execute [simp]:
  "durable (lg @ [(Execute stmt, None)]) = durable lg"
  "uncommitted (lg @ [(Execute stmt, None)]) = uncommitted lg @ [stmt]"
  by (simp_all add: durable_def uncommitted_def ledger_snoc split_beta)
    (cases "ledger lg"; simp)+

lemma ledger_commit [simp]:
  "durable (lg @ [(Commit, None)]) = durable lg @ uncommitted lg"
  "uncommitted (lg @ [(Commit, None)]) = []"
  by (cases "ledger lg"; simp add: durable_def uncommitted_def ledger_snoc)+

lemma ledger_failed [simp]:
  "durable (lg @ [(a, Some e)]) = durable lg"
  "uncommitted (lg @ [(a, Some e)]) = uncommitted lg"
  by (cases "ledger lg"; cases a; simp add: durable_def uncommitted_def ledger_snoc)+

lemma ledger_control [simp]:
  assumes "a \<noteq> Commit" and "\<And>stmt. a \<noteq> Execute stmt"
  shows "durable (lg @ [(a, r)]) = durable lg" and "uncommitted (lg @ [(a, r)]) = uncommitted lg"
  using assms
  by (cases "ledger lg"; cases a; cases r; simp add: durable_def uncommitted_def ledger_snoc)+

lemma ledger_applied:
  "durable lg @ uncommitted lg = map fst (filter (\<lambda>a. snd a = None) (stmt_attempts lg))"
proof (induction lg rule: rev_induct)
  case Nil
  show ?case by (simp add: durable_def uncommitted_def ledger_def)
next
  case (snoc ev lg)
  obtain a r where ev: "ev = (a, r)" by (cases ev)
  show ?case
  proof (cases r)
    case (Some e)
    with ev snoc show ?thesis by (cases a) (simp_all add: stmt_attempts_append)
  next
    case None
    with ev snoc show ?thesis by (cases a) (simp_all add: stmt_attempts_append)
  qed
qed

lemma periodic_commit_pending:
  assumes M: "0 < M" and inv: "pending_inv M s" and le: "batch s \<le> M"
    and pc: "periodic_commit w (int M) s = (r, s')"
  shows "pending_inv M s' \<and> (if r = None then batch s' < M else batch s' \<le> M)"
proof (cases "M \<le> batch s")
  case False
  then have "periodic_commit w (int M) s = (None, s)" by (simp add: periodic_commit_def)
  from pair_eqD [OF pc this] inv False show ?thesis by simp
next
  case True
  with le have b: "batch s = M" by simp
  show ?thesis
  proof (cases "w (log s) Commit")
    case None
    with b have "periodic_commit w (int M) s
        = (None, s\<lparr>log := log s @ [(Commit, None)], batch := 0\<rparr>)"
      by (simp add: periodic_commit_def perform_def)
    from pair_eqD [OF pc this] inv b M show ?thesis by (simp add: pending_inv_def)
  next
    case (Some e)
    with b have "periodic_commit w (int M) s = (Some e, s\<lparr>log := log s @ [(Commit, Some e)]\<rparr>)"
      by (simp add: periodic_commit_def perform_def)
    from pair_eqD [OF pc this] inv b show ?thesis by (simp add: pending_inv_def)
  qed
qed

lemma replay_step_pending:
  assumes M: "0 < M" and inv: "pending_inv M s" and lt: "batch s < M"
    and step: "replay_step w (int M) soe stmt s = (r, s')"
  shows "pending_inv M s' \<and> (if r = None then batch s' < M else batch s' \<le> M)"
proof (cases "w (log s) (Execute stmt)" rule: outcome_cases)
  case ok
  let ?t = "s\<lparr>log := log s @ [(Execute stmt, None)], applied := applied s + 1, batch := batch s + 1\<rparr>"
  from step have pc: "periodic_commit w (int M) ?t = (r, s')"
    unfolding replay_step_None [where w=w and s=s and stmt=stmt and m="int M" and soe=soe, OF ok] .
  have "pending_inv M ?t" "batch ?t \<le> M" using inv lt by (simp_all add: pending_inv_def)
  from periodic_commit_pending [OF M this pc] show ?thesis .
next
  case bad
  let ?t = "s\<lparr>log := log s @ [(Execute stmt, Some MysqlError)], failed := failed s + 1,
                  console := console s @
                    [ErrorReport (failed s + 1) (applied s + (failed s + 1)) (take 1000 stmt)]\<rparr>"
  have t: "pending_inv M ?t" "batch ?t \<le> M" using inv lt by (simp_all add: pending_inv_def)
  show ?thesis
  proof (cases soe)
    case True
    have "replay_step w (int M) soe stmt s = (Some MysqlError, ?t)"
      using True by (simp add: replay_step_Mysql [where w=w and s=s and stmt=stmt, OF bad] Let_def)
    from pair_eqD [OF step this] t show ?thesis by simp
  next
    case False
    have "replay_step w (int M) soe stmt s = periodic_commit w (int M) ?t"
      using False by (simp add: replay_step_Mysql [where w=w and s=s and stmt=stmt, OF bad] Let_def)
    from step [unfolded this] have "periodic_commit w (int M) ?t = (r, s')" .
    from periodic_commit_pending [OF M t this] show ?thesis .
  qed
next
  case other
  let ?t = "s\<lparr>log := log s @ [(Execute stmt, Some OtherException)]\<rparr>"
  from pair_eqD [OF step replay_step_Other [where w=w and s=s and stmt=stmt and m="int M" and soe=soe, OF other]]
  have "r = Some OtherException" "s' = ?t" by simp_all
  with inv lt show ?thesis by (simp add: pending_inv_def)
qed

lemma replay_loop_pending:
  assumes M: "0 < M" and inv: "pending_inv M s" and lt: "batch s < M"
    and run: "replay_loop w (int M) soe stmts s = (r, s')"
  shows "pending_inv M s' \<and> (if r = None then batch s' < M else batch s' \<le> M)"
  using inv lt run
proof (induction stmts arbitrary: s)
  case Nil
  then show ?case by simp
next
  case (Cons stmt rest)
  obtain r1 s1 where st: "replay_step w (int M) soe stmt s = (r1, s1)"
    by (cases "replay_step w (int M) soe stmt s")
  note f = replay_step_pending [OF M Cons.prems(1,2) st]
  show ?case
  proof (cases r1)
    case None
    with st Cons.prems(3) have "replay_loop w (int M) soe rest s1 = (r, s')" by simp
    with Cons.IH [of s1] f None show ?thesis by simp
  next
    case (Some e)
    with st Cons.prems(3) have "r = Some e" "s' = s1" by simp_all
    with f Some show ?thesis by simp
  qed
qed

lemma try_body_pending:
  assumes M: "0 < M" and inv: "pending_inv M s" and lt: "batch s < M"
    and run: "try_body w (int M) soe it s = (Some e, s')"
  shows "pending_inv M s' \<and> batch s' \<le> M"
proof -
  obtain rl sl where lp: "replay_loop w (int M) soe (fst it) s = (rl, sl)"
    by (cases "replay_loop w (int M) soe (fst it) s")
  note f = replay_loop_pending [OF M inv lt lp]
  show ?thesis
  proof (cases rl)
    case (Some e')
    with lp have "try_body w (int M) soe it s = (Some e', sl)" by (simp add: try_body_def)
    from pair_eqD [OF run this] f Some show ?thesis by simp
  next
    case None
    with f have b: "pending_inv M sl" "batch sl < M" by simp_all
    show ?thesis
    proof (cases "snd it")
      case True
      with lp None have "try_body w (int M) soe it s = (Some OtherException, sl)"
        by (simp add: try_body_def)
      from pair_eqD [OF run this] b show ?thesis by simp
    next
      case False
      show ?thesis
      proof (cases "0 < batch sl")
        case True
        with lp None False have "try_body w (int M) soe it s
            = (w (log sl) Commit, sl\<lparr>log := log sl @ [(Commit, w (log sl) Commit)]\<rparr>)"
          by (simp add: try_body_def perform_def)
        from pair_eqD [OF run this]
        have "w (log sl) Commit = Some e" "s' = sl\<lparr>log := log sl @ [(Commit, Some e)]\<rparr>"
          by simp_all
        with b show ?thesis by (simp add: pending_inv_def)
      next
        case F: False
        with lp None False have "try_body w (int M) soe it s = (None, sl)"
          by (simp add: try_body_def)
        from pair_eqD [OF run this] show ?thesis by simp
      qed
    qed
  qed
qed

lemma cleanup_ledger:
  assumes "cleanup w s = (c, s')"
  shows "if w (log s) (SetForeignKeyChecks True) = None
            \<and> w (log s @ [(SetForeignKeyChecks True, None)]) Commit = None
         then durable (log s') = durable (log s) @ uncommitted (log s) \<and> uncommitted (log s') = []
         else durable (log s') = durable (log s) \<and> uncommitted (log s') = uncommitted (log s)"
proof -
  let ?fk = "w (log s) (SetForeignKeyChecks True)"
  let ?l1 = "log s @ [(SetForeignKeyChecks True, ?fk)]"
  define s2 where "s2 = reenable_checks w s"
  have l2: "log s2 = (if ?fk = None then ?l1 @ [(Commit, w ?l1 Commit)] else ?l1)"
    by (auto simp: s2_def reenable_checks_def perform_def split: option.splits)
  have d2: "if ?fk = None \<and> w (log s @ [(SetForeignKeyChecks True, None)]) Commit = None
         then durable (log s2) = durable (log s) @ uncommitted (log s) \<and> uncommitted (log s2) = []
         else durable (log s2) = durable (log s) \<and> uncommitted (log s2) = uncommitted (log s)"
  proof (cases ?fk)
    case (Some e)
    then show ?thesis by (simp add: l2)
  next
    case None
    show ?thesis
    proof (cases "w ?l1 Commit")
      case N: None
      with None ledger_commit [of "log s @ [(SetForeignKeyChecks True, None)]"]
      show ?thesis by (simp add: l2)
    next
      case (Some e)
      with None ledger_failed [of "log s @ [(SetForeignKeyChecks True, None)]" Commit e]
      show ?thesis by (simp add: l2)
    qed
  qed
  have "\<exists>closes. log s' = log s2 @ closes
      \<and> (\<forall>ev\<in>set closes. fst ev \<in> {CloseCursor, CloseConnection, CloseStream})"
    using assms
    by (auto simp: cleanup_def s2_def perform_def split: option.splits)
  then obtain closes where cl: "log s' = log s2 @ closes"
    and cs: "\<forall>ev\<in>set closes. fst ev \<in> {CloseCursor, CloseConnection, CloseStream}"
    by blast
  have "durable (log s2 @ closes) = durable (log s2)
      \<and> uncommitted (log s2 @ closes) = uncommitted (log s2)"
    using cs
  proof (induction closes rule: rev_induct)
    case Nil
    show ?case by simp
  next
    case (snoc ev closes)
    obtain a r where ev: "ev = (a, r)" by (cases ev)
    with snoc.prems have a: "a \<noteq> Commit" "\<And>stmt. a \<noteq> Execute stmt" by auto
    from snoc have ih: "durable (log s2 @ closes) = durable (log s2)
      \<and> uncommitted (log s2 @ closes) = uncommitted (log s2)" by simp
    have "durable ((log s2 @ closes) @ [(a, r)]) = durable (log s2 @ closes)"
      "uncommitted ((log s2 @ closes) @ [(a, r)]) = uncommitted (log s2 @ closes)"
      using ledger_control [OF a] by blast+
    with ih ev show ?case by simp
  qed
  with cl d2 show ?thesis by simp
qed

lemma prologue_ledger:
  "durable prologue_events = []" "uncommitted prologue_events = []"
  by (simp_all add: durable_def uncommitted_def ledger_def prologue_events_def)

section \<open>The claims\<close>




text \<open>
  C2 (delimiter switch). On the five-line input
  \<^verbatim>\<open>A;\nDELIMITER $$\nB$$\nDELIMITER ;\nC;\<close> the tokenizer yields exactly \<open>A\<close>, \<open>B\<close>, \<open>C\<close>.
  Directive lines never appear in a statement: on every stream, each statement is a
  contiguous piece of the concatenation of lines \<open>ls\<close>, each of which is what the comment
  handling left of a line of the stream and is not a directive line.
\<close>

theorem delimiter_switch:
  "sql_statement_stream
     (iter_lines ''A;\<newline>DELIMITER $$\<newline>B$$\<newline>DELIMITER ;\<newline>C;'') = [''A'', ''B'', ''C'']
   \<and> (s \<in> set (sql_statement_stream lines) \<longrightarrow>
        (\<exists>ls. sublist s (concat ls) \<and>
              (\<forall>l\<in>set ls. (\<exists>raw\<in>set lines. remaining_line raw l) \<and>
                            \<not> is_directive (py_strip l))))"
proof
  show "sql_statement_stream
     (iter_lines ''A;\<newline>DELIMITER $$\<newline>B$$\<newline>DELIMITER ;\<newline>C;'') = [''A'', ''B'', ''C'']"
    by code_simp
next
  show "s \<in> set (sql_statement_stream lines) \<longrightarrow>
        (\<exists>ls. sublist s (concat ls) \<and>
              (\<forall>l\<in>set ls. (\<exists>raw\<in>set lines. remaining_line raw l) \<and>
                            \<not> is_directive (py_strip l)))"
    using statement_pieces [of s lines] by (simp add: pieces_of_def from_lines_def)
qed

theorem delimiter_switch_witness:
  "''B'' \<in> set (sql_statement_stream [''A;\<newline>'', ''DELIMITER $$\<newline>'', ''B$$\<newline>''])
   \<and> (\<exists>ls. sublist ''B'' (concat ls) \<and>
             (\<forall>l\<in>set ls.
                (\<exists>raw\<in>set [''A;\<newline>'', ''DELIMITER $$\<newline>'', ''B$$\<newline>'']. remaining_line raw l) \<and>
                \<not> is_directive (py_strip l)))"
proof -
  have m: "''B'' \<in> set (sql_statement_stream [''A;\<newline>'', ''DELIMITER $$\<newline>'', ''B$$\<newline>''])"
    by code_simp
  from delimiter_switch [of "''B''" "[''A;\<newline>'', ''DELIMITER $$\<newline>'', ''B$$\<newline>'']"] m
  show ?thesis by blast
qed

text \<open>
  C3 (replay counting). Without \<^verbatim>\<open>stop_on_error\<close>, on a stream that ends normally and
  in a world where nothing but the execution of dump statements fails (and these with
  \<^verbatim>\<open>mysql.Error\<close>; re-enabling the foreign-key checks may fail too, which is swallowed):
  the run returns normally, every one of the \<open>S\<close> statements of the sequence is
  attempted, in order, and with \<open>K\<close> the number of attempts that failed the run reports
  \<open>applied = S - K\<close> and \<open>failed = K\<close> in its summary line. This holds for every value
  of \<^verbatim>\<open>commit_every\<close>.
\<close>

theorem replay_counts:
  assumes osf: "only_statements_fail w"
    and nre: "\<not> read_error src"
    and run: "migrate_sql_to_mysql w src commit_every False = (r, st)"
  shows "r = None
    \<and> map fst (stmt_attempts (log st)) = sql_statement_stream (src_lines src)
    \<and> applied st = length (sql_statement_stream (src_lines src)) - failures (stmt_attempts (log st))
    \<and> failed st = failures (stmt_attempts (log st))
    \<and> console st \<noteq> [] \<and> last (console st) = Summary (applied st) (failed st)"
proof -
  let ?stmts = "sql_statement_stream (src_lines src)"
  let ?s0 = "start_state\<lparr>log := prologue_events\<rparr>"
  have it: "stmt_iter_of src = (?stmts, False)" using nre by (simp add: stmt_iter_of_def)
  obtain r1 s1 where tb: "try_body w commit_every False (?stmts, False) ?s0 = (r1, s1)"
    by (cases "try_body w commit_every False (?stmts, False) ?s0")
  obtain c s2 where cl: "cleanup w s1 = (c, s2)" by (cases "cleanup w s1")
  from try_body_continue [OF osf tb] obtain att where
    a: "stmt_attempts (log s1) = stmt_attempts (log ?s0) @ att" "map fst att = ?stmts"
      "applied s1 = applied ?s0 + successes att" "failed s1 = failed ?s0 + failures att"
      "r1 = None"
    by blast
  have s0: "stmt_attempts (log ?s0) = []" "applied ?s0 = 0" "failed ?s0 = 0"
    by (simp_all add: start_state_def prologue_events_def)
  from cleanup_osf [OF osf cl] have c: "c = None" .
  from cleanup_frame [OF cl] have
    f: "stmt_attempts (log s2) = stmt_attempts (log s1)" "applied s2 = applied s1"
      "failed s2 = failed s1"
    by blast+
  from run have res: "r = None" "st = s2\<lparr>console := console s2 @ [Summary (applied s2) (failed s2)]\<rparr>"
    by (simp_all add: migrate_sql_to_mysql_def prologue_osf [OF osf] it tb cl c a(5))
  have att: "stmt_attempts (log st) = att" using res(2) f(1) a(1) s0(1) by simp
  have len: "length att = length ?stmts" using a(2) by (metis length_map)
  have ap: "applied st = successes att" and fa: "failed st = failures att"
    using res(2) f a s0 by simp_all
  have "successes att = length ?stmts - failures att"
    using successes_failures [of att] len by simp
  with res att ap fa a(2) show ?thesis by simp
qed

theorem replay_counts_witness:
  "only_statements_fail demo_world \<and> \<not> read_error demo_source
   \<and> fst (migrate_sql_to_mysql demo_world demo_source 2 False) = None
   \<and> map fst (stmt_attempts (log (snd (migrate_sql_to_mysql demo_world demo_source 2 False))))
       = [''A'', ''B'', ''C'']
   \<and> applied (snd (migrate_sql_to_mysql demo_world demo_source 2 False)) = 3 - 1
   \<and> failed (snd (migrate_sql_to_mysql demo_world demo_source 2 False)) = 1
   \<and> last (console (snd (migrate_sql_to_mysql demo_world demo_source 2 False))) = Summary 2 1"
proof -
  let ?run = "migrate_sql_to_mysql demo_world demo_source 2 False"
  have h1: "only_statements_fail demo_world"
    by (simp add: only_statements_fail_def demo_world_def)
  have h2: "\<not> read_error demo_source" by (simp add: demo_source_def)
  have h3: "?run = (fst ?run, snd ?run)" by simp
  have e1: "sql_statement_stream (src_lines demo_source) = [''A'', ''B'', ''C'']" by code_simp
  have e2: "failures (stmt_attempts (log (snd ?run))) = 1" by code_simp
  from replay_counts [OF h1 h2 h3] h1 h2 e1 e2 show ?thesis by simp
qed

text \<open>
  C4 (cleanup on every exit), at the input where it fails. The loader is called at
  line 176, after the connection is open and the foreign-key checks are off, and before
  the \<^verbatim>\<open>try\<close> of line 184. When it raises, the function is left at once: the log ends
  with the failed call, the foreign-key checks are not set again and the connection is
  not closed.
\<close>

theorem loader_error_skips_cleanup:
  "migrate_sql_to_mysql (\<lambda>lg a. if a = OpenSource then Some OtherException else None)
     demo_source 200 False
   = (Some OtherException,
      \<lparr>applied = 0, failed = 0, batch = 0,
       log = [(Connect, None), (Cursor, None), (SetForeignKeyChecks False, None),
              (Commit, None), (OpenSource, Some OtherException)],
       console = []\<rparr>)"
  by code_simp

text \<open>
  C5 (commit batching). With \<^verbatim>\<open>commit_every = M\<close>, \<open>M\<close> positive, in a world where only
  dump statements fail and on a stream that ends normally: the events of the loop are
  exactly the attempts, with a commit right after each successful statement whose number
  among the successes is a multiple of \<open>M\<close> (\<open>commit_schedule\<close>; a failed statement
  does not advance the count), followed, unless the run was aborted by
  \<^verbatim>\<open>stop_on_error\<close>, by one final commit exactly when the number of successes is not a
  multiple of \<open>M\<close> (\<open>final_commit\<close>).
\<close>

theorem commit_batching:
  assumes M: "0 < M" and osf: "only_statements_fail w"
    and nre: "\<not> read_error src"
    and run: "migrate_sql_to_mysql w src (int M) soe = (r, st)"
  shows "loop_events (log st) =
           commit_schedule M 0 (stmt_attempts (log st))
           @ (if soe \<and> failures (stmt_attempts (log st)) \<noteq> 0 then []
              else final_commit M (successes (stmt_attempts (log st))))"
proof -
  let ?stmts = "sql_statement_stream (src_lines src)"
  let ?s0 = "start_state\<lparr>log := prologue_events\<rparr>"
  have it: "stmt_iter_of src = (?stmts, False)" using nre by (simp add: stmt_iter_of_def)
  have pr: "prologue w = (None, ?s0)" by (rule prologue_osf [OF osf])
  have inv: "batch_inv M ?s0" and z: "applied ?s0 = 0"
    using M by (simp_all add: batch_inv_def start_state_def)
  obtain r1 s1 where tb: "try_body w (int M) soe (?stmts, False) ?s0 = (r1, s1)"
    by (cases "try_body w (int M) soe (?stmts, False) ?s0")
  obtain c s2 where cl: "cleanup w s1 = (c, s2)" by (cases "cleanup w s1")
  from try_body_osf [OF osf M inv z tb] obtain att where
    a: "log s1 = prologue_events @ commit_schedule M 0 att
            @ (if soe \<and> failures att \<noteq> 0 then [] else final_commit M (successes att))"
    by auto
  let ?body = "commit_schedule M 0 att
            @ (if soe \<and> failures att \<noteq> 0 then [] else final_commit M (successes att))"
  from cleanup_frame [OF cl] obtain x rest where
    l2: "log s2 = log s1 @ (SetForeignKeyChecks True, x) # rest"
    and at2: "stmt_attempts (log s2) = stmt_attempts (log s1)"
    by blast
  from migrate_phases [OF pr tb [folded it] cl run] have lst: "log st = log s2" by auto
  have body: "\<forall>ev\<in>set ?body. fst ev \<noteq> SetForeignKeyChecks True"
    using commit_schedule_no_fk final_commit_no_fk by auto
  have "log st = prologue_events @ ?body @ (SetForeignKeyChecks True, x) # rest"
    using lst l2 a by simp
  then have le: "loop_events (log st) = ?body"
    using loop_events_phases [OF body] by simp
  have "stmt_attempts (log s1) = att"
    unfolding a
    by (simp add: stmt_attempts_append stmt_attempts_schedule stmt_attempts_final prologue_events_def)
  with at2 lst have "stmt_attempts (log st) = att" by simp
  with le show ?thesis by simp
qed

theorem commit_batching_witness:
  "(0::nat) < 2 \<and> only_statements_fail demo_world \<and> \<not> read_error demo_source
   \<and> loop_events (log (snd (migrate_sql_to_mysql demo_world demo_source (int 2) False)))
       = [(Execute ''A'', None), (Execute ''B'', Some MysqlError), (Execute ''C'', None),
          (Commit, None)]"
proof -
  let ?run = "migrate_sql_to_mysql demo_world demo_source (int 2) False"
  have h0: "(0::nat) < 2" by simp
  have h1: "only_statements_fail demo_world"
    by (simp add: only_statements_fail_def demo_world_def)
  have h2: "\<not> read_error demo_source" by (simp add: demo_source_def)
  have h3: "?run = (fst ?run, snd ?run)" by simp
  have e: "commit_schedule 2 0 (stmt_attempts (log (snd ?run)))
           @ (if False \<and> failures (stmt_attempts (log (snd ?run))) \<noteq> 0 then []
              else final_commit 2 (successes (stmt_attempts (log (snd ?run)))))
       = [(Execute ''A'', None), (Execute ''B'', Some MysqlError), (Execute ''C'', None),
          (Commit, None)]"
    by code_simp
  from commit_batching [OF h0 h1 h2 h3] e h0 h1 h2 show ?thesis by simp
qed

text \<open>
  C6 (comment stripping), at an input where it fails. Read from left to right, the line
  \<^verbatim>\<open>//* a */*/*/ secret */;\<close> holds the spans \<^verbatim>\<open>/* a */\<close> and \<^verbatim>\<open>/*/ secret */\<close>, and
  outside them only \<^verbatim>\<open>/*;\<close>. The loop of lines 75 to 84 removes the first span, searches
  the spliced line again from its start, pairs the \<^verbatim>\<open>/*\<close> that the splice made with
  the \<^verbatim>\<open>*/\<close> inside the opener of the second span, and so yields text of that comment.
\<close>

theorem comment_text_leaks:
  "outside_comments False ''//* a */*/*/ secret */;'' = ''/*;''
   \<and> strip_inline ''//* a */*/*/ secret */;'' = ('' secret */;'', False)
   \<and> sql_statement_stream [''//* a */*/*/ secret */;''] = [''secret */'']"
  by code_simp

text \<open>
  C7 (flushes without a delimiter). First conjunct: when a line that the comment handling
  leaves as a \<^verbatim>\<open>DELIMITER\<close> directive is read in a state the tokenizer can reach and the
  buffer is not empty, the step yields exactly one statement, the trimmed buffer (which is
  not empty), whatever the delimiter, empties the buffer and sets the delimiter. Second:
  at the end of the stream the trimmed buffer is yielded as the last statement when it is
  not empty, and a non-empty buffer never trims to nothing. Third and fourth: a dump that
  ends in a line \<open>D\<close> with no delimiter, after lines that leave the buffer empty, yields
  the final statement \<open>D\<close>, as \<^verbatim>\<open>A;\nD\<close> does.
\<close>

theorem flush_rules:
  "(stream_loop init_state p1 = (s1, o1)
      \<and> comment_continuation (in_block_comment s1) raw = Some line0
      \<and> strip_inline line0 = (line, False) \<and> is_directive (py_strip line) \<and> buf s1 \<noteq> []
    \<longrightarrow> process_line s1 raw =
          (s1\<lparr>in_block_comment := False, buf := [],
              current_delim := py_strip (drop (length delim_token) (py_strip line))\<rparr>,
           [py_strip (concat (buf s1))])
        \<and> py_strip (concat (buf s1)) \<noteq> [])
   \<and> (stream_loop init_state ls = (s2, o2)
    \<longrightarrow> sql_statement_stream ls =
          o2 @ (if py_strip (concat (buf s2)) \<noteq> [] then [py_strip (concat (buf s2))] else [])
        \<and> (buf s2 \<noteq> [] \<longrightarrow> py_strip (concat (buf s2)) \<noteq> []))
   \<and> (stream_loop init_state p3 = (s3, o3) \<and> buf s3 = [] \<and> \<not> in_block_comment s3
      \<and> find_sub ''/*'' D = None \<and> py_strip D \<noteq> [] \<and> \<not> is_directive (py_strip D)
      \<and> \<not> is_line_comment (py_strip D)
      \<and> \<not> (current_delim s3 \<noteq> [] \<and> suffix (current_delim s3) (py_rstrip D))
    \<longrightarrow> sql_statement_stream (p3 @ [D]) = o3 @ [py_strip D])
   \<and> sql_statement_stream (iter_lines ''A;\<newline>D'') = [''A'', ''D'']"
proof (intro conjI impI)
  show "sql_statement_stream (iter_lines ''A;\<newline>D'') = [''A'', ''D'']" by code_simp
qed (use directive_flush tail_flush unterminated_tail in blast)+

theorem flush_rules_witness:
  "buf (fst (stream_loop init_state [''SELECT 1\<newline>''])) \<noteq> []
   \<and> is_directive (py_strip ''DELIMITER $$\<newline>'')
   \<and> process_line (fst (stream_loop init_state [''SELECT 1\<newline>''])) ''DELIMITER $$\<newline>''
       = (\<lparr>current_delim = ''$$'', buf = [], in_block_comment = False\<rparr>, [''SELECT 1''])
   \<and> sql_statement_stream [''A;\<newline>'', ''D''] = [''A'', ''D'']
   \<and> sql_statement_stream ([''A;\<newline>''] @ [''D'']) = [''A''] @ [py_strip ''D'']"
proof -
  let ?p1 = "[''SELECT 1\<newline>'']"
  let ?s1 = "fst (stream_loop init_state ?p1)"
  let ?o1 = "snd (stream_loop init_state ?p1)"
  let ?raw = "''DELIMITER $$\<newline>''"
  let ?ls = "[''A;\<newline>'', ''D'']"
  let ?s2 = "fst (stream_loop init_state ?ls)"
  let ?o2 = "snd (stream_loop init_state ?ls)"
  let ?p3 = "[''A;\<newline>'']"
  let ?s3 = "fst (stream_loop init_state ?p3)"
  let ?o3 = "snd (stream_loop init_state ?p3)"
  note t = flush_rules [where ?p1.0="?p1" and ?s1.0="?s1" and ?o1.0="?o1" and raw="?raw"
      and line0="?raw" and line="?raw" and ls="?ls" and ?s2.0="?s2" and ?o2.0="?o2"
      and ?p3.0="?p3" and ?s3.0="?s3" and ?o3.0="?o3" and D="''D''"]
  have a1: "stream_loop init_state ?p1 = (?s1, ?o1)" by simp
  have a2: "comment_continuation (in_block_comment ?s1) ?raw = Some ?raw" by code_simp
  have a3: "strip_inline ?raw = (?raw, False)" by code_simp
  have a4: "is_directive (py_strip ?raw)" by code_simp
  have a5: "buf ?s1 \<noteq> []" by code_simp
  from t a1 a2 a3 a4 a5 have c1: "process_line ?s1 ?raw =
          (?s1\<lparr>in_block_comment := False, buf := [],
              current_delim := py_strip (drop (length delim_token) (py_strip ?raw))\<rparr>,
           [py_strip (concat (buf ?s1))])"
    by blast
  have e1: "(?s1\<lparr>in_block_comment := False, buf := [],
              current_delim := py_strip (drop (length delim_token) (py_strip ?raw))\<rparr>,
           [py_strip (concat (buf ?s1))])
       = (\<lparr>current_delim = ''$$'', buf = [], in_block_comment = False\<rparr>, [''SELECT 1''])"
    by code_simp
  have b1: "stream_loop init_state ?ls = (?s2, ?o2)" by simp
  from t b1 have c2: "sql_statement_stream ?ls =
          ?o2 @ (if py_strip (concat (buf ?s2)) \<noteq> [] then [py_strip (concat (buf ?s2))] else [])"
    by blast
  have e2: "?o2 @ (if py_strip (concat (buf ?s2)) \<noteq> [] then [py_strip (concat (buf ?s2))] else [])
       = [''A'', ''D'']"
    by code_simp
  have d1: "stream_loop init_state ?p3 = (?s3, ?o3)" by simp
  have d2: "buf ?s3 = []" by code_simp
  have d3: "\<not> in_block_comment ?s3" by code_simp
  have d4: "find_sub ''/*'' ''D'' = None" by code_simp
  have d5: "py_strip ''D'' \<noteq> []" by code_simp
  have d6: "\<not> is_directive (py_strip ''D'')" by code_simp
  have d7: "\<not> is_line_comment (py_strip ''D'')" by code_simp
  have d8: "\<not> (current_delim ?s3 \<noteq> [] \<and> suffix (current_delim ?s3) (py_rstrip ''D''))"
    by code_simp
  from t d1 d2 d3 d4 d5 d6 d7 d8 have c3: "sql_statement_stream (?p3 @ [''D'']) = ?o3 @ [py_strip ''D'']"
    by blast
  have e3: "?o3 = [''A'']" by code_simp
  note r1 = trans [OF c1 e1] and r2 = trans [OF c2 e2]
  from c3 e3 have r3: "sql_statement_stream (?p3 @ [''D'']) = [''A''] @ [py_strip ''D'']"
    by (simp only:)
  from a5 a4 r1 r2 r3 show ?thesis by (intro conjI)
qed

text \<open>
  C8 (abort on error). With \<^verbatim>\<open>stop_on_error\<close>, in any world: if the \<open>i\<close>-th attempt
  of the run failed with \<^verbatim>\<open>mysql.Error\<close>, then exactly \<open>i\<close> statements were attempted,
  namely the first \<open>i\<close> of the sequence, the run ends by raising, the failure is counted
  (\<open>failed = 1\<close>, after \<open>i - 1\<close> applied statements) and reported (error number 1,
  statement number \<open>i\<close>, the first 1000 characters of the statement); no summary
  line follows.
\<close>

theorem abort_on_error:
  assumes run: "migrate_sql_to_mysql w src commit_every True = (r, st)"
    and i: "0 < i" "i \<le> length (stmt_attempts (log st))"
    and fail: "snd (stmt_attempts (log st) ! (i - 1)) = Some MysqlError"
  shows "length (stmt_attempts (log st)) = i
    \<and> map fst (stmt_attempts (log st)) = take i (fst (stmt_iter_of src))
    \<and> r \<noteq> None
    \<and> failed st = 1 \<and> applied st = i - 1
    \<and> console st = [ErrorReport 1 i (take 1000 (fst (stmt_iter_of src) ! (i - 1)))]"
proof -
  let ?it = "stmt_iter_of src"
  obtain p s0 where pr: "prologue w = (p, s0)" by (cases "prologue w")
  have p: "p = None"
  proof (cases p)
    case (Some e)
    with migrate_prologue_failed [OF _ run] pr have "st = s0" by blast
    with prologue_failed [of w e s0] pr Some i show ?thesis by simp
  qed simp
  from prologue_ok [of w s0] pr p have s0: "s0 = start_state\<lparr>log := prologue_events\<rparr>" by simp
  then have z: "stmt_attempts (log s0) = []" "applied s0 = 0" "failed s0 = 0" "console s0 = []"
    by (simp_all add: start_state_def prologue_events_def)
  obtain r1 s1 where tb: "try_body w commit_every True ?it s0 = (r1, s1)"
    by (cases "try_body w commit_every True ?it s0")
  obtain c s2 where cl: "cleanup w s1 = (c, s2)" by (cases "cleanup w s1")
  from try_body_stop [OF tb] z obtain att where
    a: "stmt_attempts (log s1) = att"
      "map fst att = take (length att) (fst ?it)"
      "\<forall>a\<in>set (butlast att). snd a = None"
      "applied s1 + failed s1 = length (filter (\<lambda>a. snd a \<noteq> Some OtherException) att)"
      "att \<noteq> [] \<and> snd (last att) = Some MysqlError \<longrightarrow>
                r1 = Some MysqlError \<and> failed s1 = 1 \<and>
                console s1 = [ErrorReport 1 (length att) (take 1000 (fst (last att)))]"
    by auto
  from cleanup_frame [OF cl] have
    f: "stmt_attempts (log s2) = stmt_attempts (log s1)" "applied s2 = applied s1"
      "failed s2 = failed s1" "console s2 = console s1"
    by blast+
  note ph = migrate_phases [OF pr [unfolded p] tb cl run]
  have cases_run: "(r = None \<and> c = None \<and> r1 = None) \<or> (r \<noteq> None \<and> st = s2)"
    using ph by auto
  have att_st: "stmt_attempts (log st) = att"
    using ph f(1) a(1) by auto
  from i att_st have ne: "att \<noteq> []" and ile: "i \<le> length att" by auto
  have ieq: "i = length att"
  proof (rule ccontr)
    assume "i \<noteq> length att"
    with ile i have lt: "i - 1 < length (butlast att)" by simp
    then have "butlast att ! (i - 1) \<in> set (butlast att)" by (rule nth_mem)
    moreover have "butlast att ! (i - 1) = att ! (i - 1)" using lt by (simp add: nth_butlast)
    ultimately have "snd (att ! (i - 1)) = None" using a(3) by auto
    with fail att_st show False by simp
  qed
  have lst: "last att = att ! (i - 1)" using ne ieq by (simp add: last_conv_nth)
  with fail att_st have lf: "snd (last att) = Some MysqlError" by simp
  with ne a(5) have r1: "r1 = Some MysqlError" and f1: "failed s1 = 1"
    and co: "console s1 = [ErrorReport 1 (length att) (take 1000 (fst (last att)))]"
    by blast+
  from cases_run r1 have rn: "r \<noteq> None" and st: "st = s2" by auto
  have "\<forall>a\<in>set att. snd a \<noteq> Some OtherException"
  proof
    fix a assume "a \<in> set att"
    then have "a \<in> set (butlast att) \<or> a = last att"
      using ne by (metis append_butlast_last_id rotate1.simps(2) set_ConsD set_rotate1)
    with a(3) lf show "snd a \<noteq> Some OtherException" by auto
  qed
  then have "length (filter (\<lambda>a. snd a \<noteq> Some OtherException) att) = length att" by simp
  with a(4) f1 have ap: "applied s1 = length att - 1" by simp
  have "fst (last att) = map fst att ! (i - 1)" using lst ieq ne by simp
  also have "\<dots> = fst ?it ! (i - 1)" using a(2) ieq i by simp
  finally have fl: "fst (last att) = fst ?it ! (i - 1)" .
  from att_st ieq a(2) rn st f f1 ap co fl show ?thesis by simp
qed

theorem abort_on_error_witness:
  "(0::nat) < 2
   \<and> 2 \<le> length (stmt_attempts (log (snd (migrate_sql_to_mysql demo_world demo_source 200 True))))
   \<and> snd (stmt_attempts (log (snd (migrate_sql_to_mysql demo_world demo_source 200 True))) ! (2 - 1))
       = Some MysqlError
   \<and> map fst (stmt_attempts (log (snd (migrate_sql_to_mysql demo_world demo_source 200 True))))
       = [''A'', ''B'']
   \<and> fst (migrate_sql_to_mysql demo_world demo_source 200 True) \<noteq> None
   \<and> console (snd (migrate_sql_to_mysql demo_world demo_source 200 True))
       = [ErrorReport 1 2 ''B'']"
proof -
  let ?run = "migrate_sql_to_mysql demo_world demo_source 200 True"
  have h0: "(0::nat) < 2" by simp
  have h1: "2 \<le> length (stmt_attempts (log (snd ?run)))" by code_simp
  have h2: "snd (stmt_attempts (log (snd ?run)) ! (2 - 1)) = Some MysqlError" by code_simp
  have h3: "?run = (fst ?run, snd ?run)" by simp
  have e1: "take 2 (fst (stmt_iter_of demo_source)) = [''A'', ''B'']" by code_simp
  have e2: "take 1000 (fst (stmt_iter_of demo_source) ! (2 - 1)) = ''B''" by code_simp
  from abort_on_error [OF h3 h0 h1 h2] e1 e2 h0 h1 h2 show ?thesis by simp
qed




text \<open>
  C10 (what an abort leaves), as amended. When the body of the \<^verbatim>\<open>try\<close> is left by an
  error (a failed statement under \<^verbatim>\<open>stop_on_error\<close>, or any other error), with
  \<^verbatim>\<open>commit_every = M\<close> positive: the run ends by raising; at the abort only
  full batches are durable (their number is a multiple of \<open>M\<close>) and at most \<open>M\<close> applied
  statements are pending, durable and pending together being the applied statements.
  On the way out the pending statements are committed by the commit that follows the
  re-enabling of the foreign-key checks when both calls succeed; they stay uncommitted
  only when one of the two fails.
\<close>

theorem abort_durability:
  assumes M: "0 < M"
    and pr: "prologue w = (None, s0)"
    and tb: "try_body w (int M) soe (stmt_iter_of src) s0 = (Some e, s1)"
    and run: "migrate_sql_to_mysql w src (int M) soe = (r, st)"
  shows "r \<noteq> None
    \<and> length (durable (log s1)) mod M = 0 \<and> length (uncommitted (log s1)) \<le> M
    \<and> durable (log s1) @ uncommitted (log s1)
        = map fst (filter (\<lambda>a. snd a = None) (stmt_attempts (log s1)))
    \<and> (if w (log s1) (SetForeignKeyChecks True) = None
           \<and> w (log s1 @ [(SetForeignKeyChecks True, None)]) Commit = None
        then durable (log st) = durable (log s1) @ uncommitted (log s1)
           \<and> uncommitted (log st) = []
        else durable (log st) = durable (log s1)
           \<and> uncommitted (log st) = uncommitted (log s1))"
proof -
  from prologue_ok [OF pr] have s0: "s0 = start_state\<lparr>log := prologue_events\<rparr>" .
  then have inv: "pending_inv M s0" and lt: "batch s0 < M"
    using M by (simp_all add: pending_inv_def prologue_ledger start_state_def)
  from try_body_pending [OF M inv lt tb]
  have p: "length (durable (log s1)) mod M = 0" "length (uncommitted (log s1)) \<le> M"
    by (simp_all add: pending_inv_def)
  obtain c s2 where cl: "cleanup w s1 = (c, s2)" by (cases "cleanup w s1")
  from migrate_phases [OF pr tb cl run] have r: "r \<noteq> None" and st: "st = s2" by auto
  from cleanup_ledger [OF cl] st r p ledger_applied [of "log s1"] show ?thesis by simp
qed

theorem abort_durability_witness:
  "(0::nat) < 200
   \<and> fst (prologue demo_world) = None
   \<and> fst (try_body demo_world (int 200) True (stmt_iter_of demo_source) (snd (prologue demo_world)))
       = Some MysqlError
   \<and> fst (migrate_sql_to_mysql demo_world demo_source (int 200) True) \<noteq> None
   \<and> durable (log (snd (try_body demo_world (int 200) True (stmt_iter_of demo_source)
                            (snd (prologue demo_world))))) = []
   \<and> uncommitted (log (snd (try_body demo_world (int 200) True (stmt_iter_of demo_source)
                            (snd (prologue demo_world))))) = [''A'']
   \<and> durable (log (snd (migrate_sql_to_mysql demo_world demo_source (int 200) True))) = [''A'']
   \<and> uncommitted (log (snd (migrate_sql_to_mysql demo_world demo_source (int 200) True))) = []"
proof -
  let ?p = "prologue demo_world"
  let ?t = "try_body demo_world (int 200) True (stmt_iter_of demo_source) (snd ?p)"
  let ?run = "migrate_sql_to_mysql demo_world demo_source (int 200) True"
  have h0: "(0::nat) < 200" by simp
  have p: "fst ?p = None" by code_simp
  have t: "fst ?t = Some MysqlError" by code_simp
  have h1: "?p = (None, snd ?p)" using p by (metis prod.collapse)
  have h2: "?t = (Some MysqlError, snd ?t)" using t by (metis prod.collapse)
  have h3: "?run = (fst ?run, snd ?run)" by simp
  have e1: "durable (log (snd ?t)) = []" by code_simp
  have e2: "uncommitted (log (snd ?t)) = [''A'']" by code_simp
  have e3: "demo_world (log (snd ?t)) (SetForeignKeyChecks True) = None"
    "demo_world (log (snd ?t) @ [(SetForeignKeyChecks True, None)]) Commit = None"
    by (simp_all add: demo_world_def)
  from abort_durability [OF h0 h1 h2 h3] e1 e2 e3 p t show ?thesis by simp
qed

text \<open>
  The claim as stated fails: statement \<open>A\<close> was applied, the loop committed nothing,
  the run aborts at \<open>B\<close>, and \<open>A\<close> is durable when control returns.
\<close>

theorem abort_commits_pending_work:
  "fst (migrate_sql_to_mysql demo_world demo_source 200 True) = Some MysqlError
   \<and> loop_events (log (snd (migrate_sql_to_mysql demo_world demo_source 200 True)))
       = [(Execute ''A'', None), (Execute ''B'', Some MysqlError)]
   \<and> durable (log (snd (migrate_sql_to_mysql demo_world demo_source 200 True))) = [''A'']
   \<and> uncommitted (log (snd (migrate_sql_to_mysql demo_world demo_source 200 True))) = []"
  by code_simp

end
